theory Spec2Isabelle
  imports Main "HOL-Library.Word"
begin

section \<open>Fixed-precision unsigned integer simplex tableau (fixplex)\<close>

text \<open>
  A shallow embedding of \<^verbatim>\<open>src/math/polysat/fixplex_def.h\<close>. The numeral type of
  the template parameter \<^verbatim>\<open>Ext\<close> is an unsigned machine integer; it is modelled as
  \<open>'a word\<close>, so that \<open>+\<close>, \<open>-\<close> and \<open>*\<close> wrap modulo \<open>2 ^ LENGTH('a)\<close>, \<open><\<close> and
  \<open>\<le>\<close> compare unsigned, and \<open>div\<close> is the truncating unsigned division of C++.
  Variables and rows are dense unsigned handles (\<open>nat\<close>); \<^verbatim>\<open>null_var\<close> is \<open>None\<close>.
\<close>

type_synonym var_t = nat

datatype lbool = l_false | l_undef | l_true

text \<open>
  \<^verbatim>\<open>SASSERT(c)\<close> is modelled as a check: when \<open>c\<close> fails the operation stops with
  \<open>Inl Assertion_violation\<close> and hands no state back. The assertions on
  \<^verbatim>\<open>well_formed()\<close> and \<^verbatim>\<open>well_formed_row(r)\<close> are not modelled: these two
  validation functions are declared outside the given source.
\<close>

datatype error = Assertion_violation

subsection \<open>Variable and row stores\<close>

text \<open>\<^verbatim>\<open>var_info\<close> and \<^verbatim>\<open>row_info\<close> over the numeral type \<open>'n\<close> (instantiated with
  \<open>'a word\<close> below). The field \<^verbatim>\<open>row_info::m_value\<close> is named \<open>m_row_value\<close> here,
  since a record field name can be declared only once.\<close>

record 'n var_info =
  m_lo :: 'n
  m_hi :: 'n
  m_value :: 'n
  m_is_base :: bool
  m_base2row :: nat

record 'n row_info =
  m_base :: var_t
  m_base_coeff :: 'n
  m_row_value :: 'n

subsection \<open>Sparse matrix\<close>

text \<open>
  Modelled from the spec: the sparse matrix \<^verbatim>\<open>M\<close> (\<^verbatim>\<open>math/simplex/sparse_matrix_def.h\<close>
  is not part of the source). The spec describes it as rows of sparse
  (variable, coefficient) entries with row creation, entry insertion, row scaling,
  row combination (add a scaled row to another) and traversal by row or by column.
  A row is the list of its entries in insertion order, the matrix the list of its rows;
  a row handle is its index. Row combination merges entries of the same variable and
  drops coefficients that became zero.
\<close>

type_synonym 'n row_entry = "var_t \<times> 'n"
type_synonym 'n sparse_matrix = "'n row_entry list list"

definition M_mk_row :: "'n sparse_matrix \<Rightarrow> nat \<times> 'n sparse_matrix" where
  "M_mk_row A = (length A, A @ [[]])"

definition M_add_var :: "'n sparse_matrix \<Rightarrow> nat \<Rightarrow> 'n \<Rightarrow> var_t \<Rightarrow> 'n sparse_matrix" where
  "M_add_var A r c v = A[r := A ! r @ [(v, c)]]"

definition M_row_entries :: "'n sparse_matrix \<Rightarrow> nat \<Rightarrow> 'n row_entry list" where
  "M_row_entries A r = A ! r"

definition M_col_entries :: "'n sparse_matrix \<Rightarrow> var_t \<Rightarrow> (nat \<times> 'n) list" where
  "M_col_entries A v =
     concat (map (\<lambda>r. map (\<lambda>e. (r, snd e)) (filter (\<lambda>e. fst e = v) (A ! r))) [0..<length A])"

definition M_column_size :: "'n sparse_matrix \<Rightarrow> var_t \<Rightarrow> nat" where
  "M_column_size A v = length (M_col_entries A v)"

definition M_mul :: "'a::len word sparse_matrix \<Rightarrow> nat \<Rightarrow> 'a word \<Rightarrow> 'a word sparse_matrix" where
  "M_mul A r n = A[r := map (\<lambda>e. (fst e, n * snd e)) (A ! r)]"

definition add_entry :: "'a::len word row_entry list \<Rightarrow> 'a word row_entry \<Rightarrow> 'a word row_entry list" where
  "add_entry es e =
     (if fst e \<in> fst ` set es
      then filter (\<lambda>d. snd d \<noteq> 0) (map (\<lambda>d. if fst d = fst e then (fst d, snd d + snd e) else d) es)
      else if snd e = 0 then es else es @ [e])"

definition M_add :: "'a::len word sparse_matrix \<Rightarrow> nat \<Rightarrow> 'a word \<Rightarrow> nat \<Rightarrow> 'a word sparse_matrix" where
  "M_add A r1 n r2 = A[r1 := fold (\<lambda>e es. add_entry es (fst e, n * snd e)) (A ! r2) (A ! r1)]"

subsection \<open>Numeral ring primitives\<close>

text \<open>
  Modelled from the spec: \<^verbatim>\<open>trailing_zeros\<close> is the count of low-order zero bits of a
  ring element (its definition is not part of the source); all \<open>LENGTH('a)\<close> bits of
  zero are zero bits.
\<close>

definition trailing_zeros :: "'a::len word \<Rightarrow> nat" where
  "trailing_zeros w = length (takeWhile (\<lambda>i. \<not> bit w i) [0..<LENGTH('a)])"

subsection \<open>The tableau\<close>

record 'n fixplex =
  M :: "'n sparse_matrix"
  m_vars :: "'n var_info list"
  m_rows :: "'n row_info list"
  m_to_patch :: "var_t list"
  m_base_vars :: "var_t list"
  m_left_basis :: "var_t list"
  m_bland :: bool
  m_infeasible_var :: "var_t option"
  m_max_iterations :: "32 word"
  m_blands_rule_threshold :: "32 word"
  m_num_checks :: "32 word"
  m_num_pivots :: "32 word"
  m_num_infeasible :: "32 word"
  m_limit :: nat
  m_random :: nat

text \<open>
  What the source uses and does not define is a parameter of the model, collected in
  one record:
  \<^item> \<open>m_inv\<close>, \<open>m_signed_mul\<close>, \<open>m_signed_add\<close>: the operations \<^verbatim>\<open>m.inv\<close>,
    \<^verbatim>\<open>m.signed_mul\<close> and \<^verbatim>\<open>m.signed_add\<close> of the numeral manager of \<^verbatim>\<open>Ext\<close>; the two
    checked operations return \<open>None\<close> where the source's return \<^verbatim>\<open>false\<close>;
  \<^item> \<open>limit_ok\<close>: the external resource limit, \<open>limit_ok k\<close> being the answer of the
    \<open>k\<close>-th call of \<^verbatim>\<open>m_limit.inc()\<close> (calls are counted in \<open>m_limit\<close>);
  \<^item> \<open>random_gen\<close>: the generator, \<open>random_gen k\<close> being the \<open>k\<close>-th draw of
    \<^verbatim>\<open>m_random()\<close> (draws are counted in \<open>m_random\<close>);
  \<^item> \<open>get_num_non_free_dep_vars\<close>: the method of that name;
  \<^item> \<open>delta_best\<close>, \<open>num_best_so_far\<close>, \<open>delta_y_init\<close>: \<^verbatim>\<open>select_pivot_core\<close> reads
    \<^verbatim>\<open>delta_best\<close> and \<^verbatim>\<open>num_best_so_far\<close> without declaring them, and declares
    \<^verbatim>\<open>delta_y\<close> without initialising it.
\<close>

record 'n ext =
  m_inv :: "'n \<Rightarrow> 'n"
  m_signed_mul :: "'n \<Rightarrow> 'n \<Rightarrow> 'n option"
  m_signed_add :: "'n \<Rightarrow> 'n \<Rightarrow> 'n option"
  limit_ok :: "nat \<Rightarrow> bool"
  random_gen :: "nat \<Rightarrow> nat"
  get_num_non_free_dep_vars :: "'n fixplex \<Rightarrow> var_t \<Rightarrow> int \<Rightarrow> int"
  delta_best :: 'n
  num_best_so_far :: bool
  delta_y_init :: 'n

definition lo :: "'n fixplex \<Rightarrow> var_t \<Rightarrow> 'n" where
  "lo s v = m_lo (m_vars s ! v)"

definition hi :: "'n fixplex \<Rightarrow> var_t \<Rightarrow> 'n" where
  "hi s v = m_hi (m_vars s ! v)"

definition value_of :: "'n fixplex \<Rightarrow> var_t \<Rightarrow> 'n" where
  "value_of s v = m_value (m_vars s ! v)"

definition is_base :: "'n fixplex \<Rightarrow> var_t \<Rightarrow> bool" where
  "is_base s v = m_is_base (m_vars s ! v)"

definition get_num_vars :: "'n fixplex \<Rightarrow> nat" where
  "get_num_vars s = length (m_vars s)"

subsection \<open>Bounds\<close>

definition in_bounds :: "'a::len word \<Rightarrow> 'a word \<Rightarrow> 'a word \<Rightarrow> bool" where
  "in_bounds val l h =
     (if l = h then True
      else if l < h then l \<le> val \<and> val < h
      else val < h \<or> l \<le> val)"

definition in_bounds_var :: "'a::len word fixplex \<Rightarrow> var_t \<Rightarrow> bool" where
  "in_bounds_var s v = in_bounds (value_of s v) (lo s v) (hi s v)"

subsection \<open>To-Patch Set, anti-cycling and the resource limit\<close>

text \<open>
  Modelled from the spec: \<^verbatim>\<open>m_to_patch\<close>, \<^verbatim>\<open>add_patch\<close>, \<^verbatim>\<open>select_var_to_fix\<close> and
  \<^verbatim>\<open>check_blands_rule\<close> are declared outside the source. The To-Patch Set holds the
  basic variables that violate their bounds, with insert, select and remove;
  \<^verbatim>\<open>add_patch\<close> registers a variable if it is out of bounds; selection takes a
  violating variable out of the set, in arbitrary order (here: the oldest member) unless
  anti-cycling is active, when it is the lowest index; anti-cycling becomes active once
  variables that were selected before have been selected again more often than a
  threshold.
\<close>

definition to_patch_insert :: "'n fixplex \<Rightarrow> var_t \<Rightarrow> 'n fixplex" where
  "to_patch_insert s v =
     (if v \<in> set (m_to_patch s) then s else s\<lparr>m_to_patch := m_to_patch s @ [v]\<rparr>)"

definition add_patch :: "'a::len word fixplex \<Rightarrow> var_t \<Rightarrow> 'a word fixplex" where
  "add_patch s v = (if in_bounds_var s v then s else to_patch_insert s v)"

definition select_var_to_fix :: "'n fixplex \<Rightarrow> var_t option \<times> 'n fixplex" where
  "select_var_to_fix s =
     (case m_to_patch s of
        [] \<Rightarrow> (None, s)
      | w # ws \<Rightarrow>
          (let v = (if m_bland s then fold min ws w else w)
           in (Some v, s\<lparr>m_to_patch := removeAll v (m_to_patch s)\<rparr>)))"

definition check_blands_rule ::
  "'n fixplex \<Rightarrow> var_t \<Rightarrow> 32 word \<Rightarrow> 'n fixplex \<times> 32 word" where
  "check_blands_rule s v num_repeated =
     (if m_bland s then (s, num_repeated)
      else if v \<in> set (m_left_basis s) then
        (let n = num_repeated + 1
         in (if n > m_blands_rule_threshold s then s\<lparr>m_bland := True\<rparr> else s, n))
      else (s\<lparr>m_left_basis := v # m_left_basis s\<rparr>, num_repeated))"

definition limit_inc :: "'n ext \<Rightarrow> 'n fixplex \<Rightarrow> bool \<times> 'n fixplex" where
  "limit_inc E s = (limit_ok E (m_limit s), s\<lparr>m_limit := m_limit s + 1\<rparr>)"

subsection \<open>Registration\<close>


definition default_row_info :: "'a::len word row_info" where
  "default_row_info = \<lparr>m_base = 0, m_base_coeff = 0, m_row_value = 0\<rparr>"



subsection \<open>update_value\<close>

definition update_value_step ::
  "'a::len word \<Rightarrow> nat \<times> 'a word \<Rightarrow> 'a word fixplex \<Rightarrow> 'a word fixplex" where
  "update_value_step delta c s =
     (let ri = m_rows s ! fst c;
          sv = m_base ri;
          ri' = ri\<lparr>m_row_value := m_row_value ri + delta * snd c\<rparr>;
          s' = s\<lparr>m_rows := (m_rows s)[fst c := ri'],
                 m_vars := (m_vars s)[sv := (m_vars s ! sv)
                    \<lparr>m_value := 0 - (m_row_value ri' div m_base_coeff ri')\<rparr>]\<rparr>
      in add_patch s' sv)"

definition update_value ::
  "'a::len word fixplex \<Rightarrow> var_t \<Rightarrow> 'a word \<Rightarrow> error + 'a word fixplex" where
  "update_value s v delta =
     (if delta = 0 then Inr s
      else
        (let s1 = s\<lparr>m_vars := (m_vars s)[v := (m_vars s ! v)\<lparr>m_value := m_value (m_vars s ! v) + delta\<rparr>]\<rparr>
         in if is_base s1 v then Inl Assertion_violation
            else Inr (fold (update_value_step delta) (M_col_entries (M s1) v) s1)))"

subsection \<open>add_row and gauss_jordan\<close>

text \<open>The loop of \<^verbatim>\<open>gauss_jordan\<close> changes nothing (its body is disabled by
  \<^verbatim>\<open>#if 0\<close>), so it returns only when \<^verbatim>\<open>m_base_vars\<close> is empty; not returning is
  \<open>None\<close>.\<close>

partial_function (option) gauss_jordan :: "'n fixplex \<Rightarrow> 'n fixplex option" where
  "gauss_jordan s = (if m_base_vars s = [] then Some s else gauss_jordan s)"

definition add_row_scan ::
  "'a::len word fixplex \<Rightarrow> var_t \<Rightarrow> 'a word row_entry \<Rightarrow>
   'a word \<times> 'a word \<times> var_t list \<Rightarrow> 'a word \<times> 'a word \<times> var_t list" where
  "add_row_scan s base_var e acc =
     (case acc of (base_coeff, val, base_vars) \<Rightarrow>
        if fst e = base_var then (snd e, val, base_vars)
        else (base_coeff, val + snd e * value_of s (fst e),
              if is_base s (fst e) then base_vars @ [fst e] else base_vars))"

text \<open>The arrays \<^verbatim>\<open>vars\<close> and \<^verbatim>\<open>coeffs\<close> are lists holding at least \<open>num_vars\<close>
  elements. Reading \<^verbatim>\<open>m_vars\<close> beyond its size fails the assertion of the vector's
  index operator.\<close>

definition add_row_entry :: "nat \<Rightarrow> var_t \<times> 'a::len word \<Rightarrow> 'a word sparse_matrix \<Rightarrow> 'a word sparse_matrix" where
  "add_row_entry r vc A = (if snd vc \<noteq> 0 then M_add_var A r (snd vc) (fst vc) else A)"

definition add_row ::
  "'a::len word fixplex \<Rightarrow> var_t \<Rightarrow> nat \<Rightarrow> var_t list \<Rightarrow> 'a word list \<Rightarrow>
   (error + nat \<times> 'a word fixplex) option" where
  "add_row s base_var num_vars vars coeffs =
     (let r = fst (M_mk_row (M s));
          A = fold (add_row_entry r) (take num_vars (zip vars coeffs)) (snd (M_mk_row (M s)));
          s1 = s\<lparr>m_base_vars := [], M := A\<rparr>
      in if \<not> (\<forall>e \<in> set (M_row_entries A r). fst e < length (m_vars s1)) then Some (Inl Assertion_violation)
         else
          (case fold (add_row_scan s1 base_var) (M_row_entries A r) (0, 0, []) of
             (base_coeff, val, base_vars) \<Rightarrow>
               if base_coeff = 0 then Some (Inl Assertion_violation)
               else if is_base s1 base_var then Some (Inl Assertion_violation)
               else
                (let rows = m_rows s1 @ replicate (Suc r - length (m_rows s1)) default_row_info;
                     rows' = rows[r := (rows ! r)\<lparr>m_base := base_var, m_base_coeff := base_coeff,
                                                  m_row_value := val\<rparr>];
                     vars' = (m_vars s1)[base_var := (m_vars s1 ! base_var)
                               \<lparr>m_base2row := r, m_is_base := True, m_value := 0 - (val div base_coeff)\<rparr>];
                     s2 = add_patch (s1\<lparr>m_base_vars := base_vars, m_rows := rows', m_vars := vars'\<rparr>) base_var
                 in if m_base_vars s2 \<noteq> []
                    then map_option (\<lambda>s3. Inr (r, s3)) (gauss_jordan s2)
                    else Some (Inr (r, s2)))))"

subsection \<open>Pivot selection\<close>

fun has_minimal_trailing_zeros_loop :: "nat \<Rightarrow> (nat \<times> 'a::len word) list \<Rightarrow> bool" where
  "has_minimal_trailing_zeros_loop tz1 [] = True"
| "has_minimal_trailing_zeros_loop tz1 (col # cols) =
     (if tz1 > trailing_zeros (snd col) then False
      else has_minimal_trailing_zeros_loop tz1 cols)"

definition has_minimal_trailing_zeros :: "'a::len word fixplex \<Rightarrow> var_t \<Rightarrow> 'a word \<Rightarrow> bool" where
  "has_minimal_trailing_zeros s y b =
     (let tz1 = trailing_zeros b
      in if tz1 = 0 then True
         else has_minimal_trailing_zeros_loop tz1 (M_col_entries (M s) y))"

text \<open>The locals of \<^verbatim>\<open>select_pivot_core\<close> that its loop updates; \<open>n_ties\<close> is the
  source's \<^verbatim>\<open>n\<close>, \<open>rnd\<close> the number of draws made from \<^verbatim>\<open>m_random\<close>.\<close>

record 'n pivot_search =
  result :: var_t
  out_b :: 'n
  n_ties :: int
  best_col_sz :: "32 word"
  best_so_far :: int
  best_in_bounds :: bool
  delta_y :: 'n
  rnd :: nat

definition INT_MAX :: int where
  "INT_MAX = 2147483647"

definition UINT_MAX :: "32 word" where
  "UINT_MAX = 4294967295"

text \<open>One iteration of the loop over the row of \<open>x\<close>. The source reads the undeclared
  \<^verbatim>\<open>a\<close>; it is the base coefficient of the row, as in \<^verbatim>\<open>pivot\<close>. The test of
  \<^verbatim>\<open>is_pleateau\<close> is the test of the declared \<^verbatim>\<open>is_plateau\<close>.\<close>

definition select_pivot_step ::
  "'a::len word ext \<Rightarrow> 'a word fixplex \<Rightarrow> var_t \<Rightarrow> 'a word \<Rightarrow> 'a word \<Rightarrow> 'a word \<Rightarrow>
   'a word row_entry \<Rightarrow> 'a word pivot_search \<Rightarrow> 'a word pivot_search" where
  "select_pivot_step E s x new_value row_value a e st =
     (let y = fst e; b = snd e
      in if x = y then st
         else if \<not> has_minimal_trailing_zeros s y b then st
         else
          (let new_y_value = (row_value - b * value_of s y - a * new_value) div b;
               inb = in_bounds new_y_value (lo s y) (hi s y);
               dy = (if \<not> inb
                     then (if lo s y - new_y_value < new_y_value - hi s y
                           then new_y_value - lo s y else hi s y - new_y_value)
                     else delta_y st);
               num = get_num_non_free_dep_vars E s y (best_so_far st);
               col_sz = (of_nat (M_column_size (M s) y) :: 32 word);
               is_improvement =
                 (best_so_far st = INT_MAX
                  \<or> (\<not> best_in_bounds st \<and> inb)
                  \<or> (\<not> best_in_bounds st \<and> \<not> inb \<and> dy < delta_best E)
                  \<or> (best_in_bounds st \<and> inb \<and> num < best_so_far st)
                  \<or> (best_in_bounds st \<and> inb \<and> num = best_so_far st \<and> col_sz < best_col_sz st));
               is_plateau =
                 (\<not> is_improvement \<and> best_in_bounds st \<and> dy = delta_best E
                  \<and> num_best_so_far E \<and> col_sz = best_col_sz st);
               st1 = st\<lparr>delta_y := dy\<rparr>
           in if is_improvement
              then st1\<lparr>result := y, out_b := b, best_so_far := num, best_col_sz := col_sz,
                       best_in_bounds := inb, n_ties := 1\<rparr>
              else if is_plateau
              then (let st2 = st1\<lparr>n_ties := n_ties st1 + 1, rnd := rnd st1 + 1\<rparr>
                    in if random_gen E (rnd st1) mod nat (n_ties st2) = 0
                       then st2\<lparr>result := y, out_b := b\<rparr> else st2)
              else st1))"

definition select_pivot_core ::
  "'a::len word ext \<Rightarrow> 'a word fixplex \<Rightarrow> var_t \<Rightarrow> 'a word \<Rightarrow> 'a word \<Rightarrow>
   error + (var_t \<times> 'a word) option \<times> 'a word fixplex" where
  "select_pivot_core E s x delta new_value =
     (if \<not> is_base s x then Inl Assertion_violation
      else
       (let max = get_num_vars s;
            r = m_base2row (m_vars s ! x);
            st0 = \<lparr>result = max, out_b = 0, n_ties = 0, best_col_sz = UINT_MAX,
                   best_so_far = INT_MAX, best_in_bounds = False,
                   delta_y = delta_y_init E, rnd = m_random s\<rparr>;
            st = fold (select_pivot_step E s x new_value (m_row_value (m_rows s ! r))
                         (m_base_coeff (m_rows s ! r)))
                   (M_row_entries (M s) r) st0
        in Inr (if result st < max then Some (result st, out_b st) else None,
                s\<lparr>m_random := rnd st\<rparr>)))"

subsection \<open>Infeasibility proof\<close>

fun is_infeasible_row_loop ::
  "'a::len word ext \<Rightarrow> 'a word fixplex \<Rightarrow> 'a word row_entry list \<Rightarrow>
   'a word \<Rightarrow> 'a word \<Rightarrow> 'a word \<Rightarrow> bool" where
  "is_infeasible_row_loop E s [] lo_sum hi_sum diff = (0 < lo_sum \<and> lo_sum \<le> hi_sum)"
| "is_infeasible_row_loop E s (e # es) lo_sum hi_sum diff =
     (let v = fst e; c = snd e
      in if lo s v = hi s v then False
         else
          (case m_signed_mul E c (hi s v - lo s v) of
             None \<Rightarrow> False
           | Some range' \<Rightarrow>
              (case m_signed_add E diff range' of
                 None \<Rightarrow> False
               | Some diff' \<Rightarrow>
                   is_infeasible_row_loop E s es
                     (lo_sum + lo s v * c) (hi_sum + (hi s v - 1) * c) diff')))"

text \<open>The source iterates over \<^verbatim>\<open>M.row_entries(r)\<close> with \<^verbatim>\<open>r\<close> undeclared; it is the
  row of \<open>x\<close>, \<^verbatim>\<open>m_vars[x].m_base2row\<close>, as in \<^verbatim>\<open>select_pivot_core\<close>.\<close>

definition is_infeasible_row ::
  "'a::len word ext \<Rightarrow> 'a word fixplex \<Rightarrow> var_t \<Rightarrow> error + bool" where
  "is_infeasible_row E s x =
     (if \<not> is_base s x then Inl Assertion_violation
      else Inr (is_infeasible_row_loop E s
                  (M_row_entries (M s) (m_base2row (m_vars s ! x))) 0 0 0))"

subsection \<open>Pivot\<close>

text \<open>One iteration of the loop over the column of \<open>y\<close>. The source writes
  \<^verbatim>\<open>m_vars[row_z]\<close> and \<^verbatim>\<open>zI.m_base\<close>; both denote the base variable of \<^verbatim>\<open>row_z\<close>,
  \<^verbatim>\<open>row_z.m_base\<close>. The column is the one found when the loop starts.\<close>

definition pivot_step ::
  "'a::len word ext \<Rightarrow> nat \<Rightarrow> 'a word \<Rightarrow> 'a word \<Rightarrow> nat \<times> 'a word \<Rightarrow>
   error + 'a word fixplex \<Rightarrow> error + 'a word fixplex" where
  "pivot_step E rx b old_value_y col acc =
     (case acc of
        Inl err \<Rightarrow> Inl err
      | Inr s \<Rightarrow>
         (let rz = fst col
          in if rz = rx then Inr s
             else
              (let row_z = m_rows s ! rz;
                   z = m_base row_z;
                   c = snd col;
                   tz1 = trailing_zeros b;
                   tz2 = trailing_zeros c
               in if \<not> tz1 \<le> tz2 then Inl Assertion_violation
                  else
                   (let b1 = drop_bit tz1 b;
                        c1 = m_inv E (drop_bit (tz2 - tz1) c);
                        A = M_add (M_mul (M s) rz b1) rz c1 rx;
                        val = b1 * (m_row_value row_z - old_value_y)
                                + c1 * m_row_value (m_rows s ! rx);
                        row_z' = row_z\<lparr>m_row_value := val, m_base_coeff := m_base_coeff row_z * b1\<rparr>;
                        s' = s\<lparr>M := A, m_rows := (m_rows s)[rz := row_z'],
                               m_vars := (m_vars s)[z := (m_vars s ! z)
                                  \<lparr>m_value := 0 - (val div m_base_coeff row_z')\<rparr>]\<rparr>
                    in Inr (add_patch s' z)))))"

text \<open>The source reads \<^verbatim>\<open>row_i.m_value\<close> with \<^verbatim>\<open>row_i\<close> undeclared; it is
  \<^verbatim>\<open>row_x.m_value\<close>, the value of the only row in scope. The source divides by \<open>b\<close>
  and, in the loop, by the base coefficient of the row without a guard; \<open>div\<close> is total
  (\<open>x div 0 = 0\<close>), so the model stands for the source where these divisors are not
  zero.\<close>

definition pivot ::
  "'a::len word ext \<Rightarrow> 'a word fixplex \<Rightarrow> var_t \<Rightarrow> var_t \<Rightarrow> 'a word \<Rightarrow> 'a word \<Rightarrow>
   error + 'a word fixplex" where
  "pivot E s x y b new_value =
     (if \<not> is_base s x then Inl Assertion_violation
      else if is_base s y then Inl Assertion_violation
      else
       (let xI = m_vars s ! x;
            yI = m_vars s ! y;
            rx = m_base2row xI;
            row_x = m_rows s ! rx;
            a = m_base_coeff row_x;
            old_value_y = m_value yI;
            val = m_row_value row_x - b * old_value_y + a * new_value;
            row_x' = row_x\<lparr>m_base := y, m_row_value := val, m_base_coeff := b\<rparr>;
            yI' = yI\<lparr>m_base2row := rx, m_is_base := True, m_value := 0 - (val div b)\<rparr>;
            xI' = xI\<lparr>m_is_base := False, m_value := new_value\<rparr>;
            s1 = s\<lparr>m_num_pivots := m_num_pivots s + 1,
                   m_rows := (m_rows s)[rx := row_x'],
                   m_vars := (m_vars s)[y := yI', x := xI']\<rparr>;
            s2 = add_patch s1 y
        in fold (pivot_step E rx b old_value_y) (M_col_entries (M s2) y) (Inr s2)))"

subsection \<open>Feasibility loop\<close>

text \<open>The choice of the bound to move to, from \<^verbatim>\<open>make_var_feasible\<close>: the pair of
  \<^verbatim>\<open>new_value\<close> and \<^verbatim>\<open>delta\<close>.\<close>

definition new_value_delta :: "'a::len word \<Rightarrow> 'a word \<Rightarrow> 'a word \<Rightarrow> 'a word \<times> 'a word" where
  "new_value_delta l h val =
     (if l - val < val - h then (l, l - val) else (h - 1, val - (h - 1)))"

definition make_var_feasible ::
  "'a::len word ext \<Rightarrow> 'a word fixplex \<Rightarrow> var_t \<Rightarrow> error + lbool \<times> 'a word fixplex" where
  "make_var_feasible E s x =
     (if in_bounds_var s x then Inr (l_true, s)
      else
       (let new_value = fst (new_value_delta (lo s x) (hi s x) (value_of s x));
            delta = snd (new_value_delta (lo s x) (hi s x) (value_of s x))
        in case select_pivot_core E s x delta new_value of
             Inl err \<Rightarrow> Inl err
           | Inr (None, s1) \<Rightarrow>
               (case is_infeasible_row E s1 x of
                  Inl err \<Rightarrow> Inl err
                | Inr infeasible \<Rightarrow> Inr (if infeasible then l_false else l_undef, s1))
           | Inr (Some yb, s1) \<Rightarrow>
               (case pivot E s1 x (fst yb) (snd yb) new_value of
                  Inl err \<Rightarrow> Inl err
                | Inr s2 \<Rightarrow> Inr (l_true, s2))))"

partial_function (option) make_feasible_loop ::
  "'a::len word ext \<Rightarrow> 'a word fixplex \<Rightarrow> 32 word \<Rightarrow> 32 word \<Rightarrow>
   (error + lbool \<times> 'a word fixplex) option" where
  "make_feasible_loop E s num_iterations num_repeated =
     (case fst (select_var_to_fix s) of
        None \<Rightarrow> Some (Inr (l_true, snd (select_var_to_fix s)))
      | Some v \<Rightarrow>
         (let s1 = snd (select_var_to_fix s);
              s2 = snd (limit_inc E s1)
          in if \<not> fst (limit_inc E s1) \<or> num_iterations > m_max_iterations s2
             then Some (Inr (l_undef, s2))
             else
              (let s3 = fst (check_blands_rule s2 v num_repeated);
                   num_repeated' = snd (check_blands_rule s2 v num_repeated)
               in case make_var_feasible E s3 v of
                    Inl err \<Rightarrow> Some (Inl err)
                  | Inr res \<Rightarrow>
                     (case fst res of
                        l_true \<Rightarrow> make_feasible_loop E (snd res) (num_iterations + 1) num_repeated'
                      | l_false \<Rightarrow>
                          Some (Inr (l_false,
                            (to_patch_insert (snd res) v)
                              \<lparr>m_infeasible_var := Some v,
                               m_num_infeasible := m_num_infeasible (snd res) + 1\<rparr>))
                      | l_undef \<Rightarrow> Some (Inr (l_undef, to_patch_insert (snd res) v))))))"

definition make_feasible ::
  "'a::len word ext \<Rightarrow> 'a word fixplex \<Rightarrow> (error + lbool \<times> 'a word fixplex) option" where
  "make_feasible E s =
     make_feasible_loop E
       (s\<lparr>m_num_checks := m_num_checks s + 1, m_left_basis := [],
          m_infeasible_var := None, m_bland := False\<rparr>) 0 0"

section \<open>Instances and concrete tableaus\<close>

text \<open>
  Modelled from the spec: the numeral ring offers modulo \<open>2 ^ N\<close> add and multiply with
  overflow detection, and the modular inverse of odd elements (the manager of \<^verbatim>\<open>Ext\<close>
  is not part of the source). \<open>checked_mul\<close> and \<open>checked_add\<close> detect that the product
  or sum of the unsigned values leaves the ring; \<open>mod_inverse\<close> is the inverse of an odd
  element, as a power.
\<close>

definition checked_mul :: "'a::len word \<Rightarrow> 'a word \<Rightarrow> 'a word option" where
  "checked_mul x y = (if unat x * unat y < 2 ^ LENGTH('a) then Some (x * y) else None)"

definition checked_add :: "'a::len word \<Rightarrow> 'a word \<Rightarrow> 'a word option" where
  "checked_add x y = (if unat x + unat y < 2 ^ LENGTH('a) then Some (x + y) else None)"

definition mod_inverse :: "'a::len word \<Rightarrow> 'a word" where
  "mod_inverse w = w ^ (2 ^ (LENGTH('a) - 1) - 1)"

text \<open>
  Two instances of the parameters. In \<open>ext_neg\<close> the operation \<^verbatim>\<open>m.inv\<close> is the additive
  inverse: the comment above \<^verbatim>\<open>pivot\<close> describes the row operation as
  \<^verbatim>\<open>r <- b1 * r - c1 * r_x\<close> with \<^verbatim>\<open>c1 = c >> (tz(c) - tz(b))\<close>, and the code calls
  \<^verbatim>\<open>M.add(r_z, c1, r_x)\<close> with \<^verbatim>\<open>c1 = m.inv(c >> (tz2 - tz1))\<close>. In \<open>ext_minv\<close> it is
  the modular inverse, as the spec reads it. The resource limit never fires, the
  generator draws zeros, and no dependent variable is counted.
\<close>

definition ext_neg :: "'a::len word ext" where
  "ext_neg = \<lparr>m_inv = uminus, m_signed_mul = checked_mul, m_signed_add = checked_add,
     limit_ok = (\<lambda>k. True), random_gen = (\<lambda>k. 0), get_num_non_free_dep_vars = (\<lambda>s y n. 0),
     delta_best = 0, num_best_so_far = False, delta_y_init = 0\<rparr>"

definition ext_minv :: "'a::len word ext" where
  "ext_minv = \<lparr>m_inv = mod_inverse, m_signed_mul = checked_mul, m_signed_add = checked_add,
     limit_ok = (\<lambda>k. True), random_gen = (\<lambda>k. 0), get_num_non_free_dep_vars = (\<lambda>s y n. 0),
     delta_best = 0, num_best_so_far = False, delta_y_init = 0\<rparr>"

definition mk_var :: "'n \<Rightarrow> 'n \<Rightarrow> 'n \<Rightarrow> bool \<Rightarrow> nat \<Rightarrow> 'n var_info" where
  "mk_var l h v b r = \<lparr>m_lo = l, m_hi = h, m_value = v, m_is_base = b, m_base2row = r\<rparr>"

definition mk_row_info :: "var_t \<Rightarrow> 'n \<Rightarrow> 'n \<Rightarrow> 'n row_info" where
  "mk_row_info b c v = \<lparr>m_base = b, m_base_coeff = c, m_row_value = v\<rparr>"

definition mk_fixplex ::
  "'n sparse_matrix \<Rightarrow> 'n var_info list \<Rightarrow> 'n row_info list \<Rightarrow> var_t list \<Rightarrow> 32 word \<Rightarrow> 'n fixplex" where
  "mk_fixplex A vs rs patch max_iter =
     \<lparr>M = A, m_vars = vs, m_rows = rs, m_to_patch = patch, m_base_vars = [],
      m_left_basis = [], m_bland = False, m_infeasible_var = None, m_max_iterations = max_iter,
      m_blands_rule_threshold = 10, m_num_checks = 0, m_num_pivots = 0, m_num_infeasible = 0,
      m_limit = 0, m_random = 0\<rparr>"

text \<open>The row \<open>x\<^sub>0 + x\<^sub>1 = 0\<close> on the 4-bit ring, \<open>x\<^sub>0\<close> basic with the wrapping bounds
  \<open>[5, 3)\<close> and the value 4, which is out of bounds; \<open>x\<^sub>1\<close> unconstrained.\<close>

definition tableau_near :: "4 word fixplex" where
  "tableau_near =
     mk_fixplex [[(0, 1), (1, 1)]]
       [mk_var 5 3 4 True 0, mk_var 0 0 12 False 0] [mk_row_info 0 1 12] [] 100"

text \<open>The row \<open>x\<^sub>0 + x\<^sub>1 = 0\<close> on the 4-bit ring with \<open>x\<^sub>0\<close> in \<open>[5, 16)\<close> and \<open>x\<^sub>1\<close> in
  \<open>[13, 16)\<close> (the upper bound 16 is 0 in the ring), \<open>x\<^sub>0\<close> basic.\<close>

definition tableau_infeasible :: "4 word fixplex" where
  "tableau_infeasible =
     mk_fixplex [[(0, 1), (1, 1)]]
       [mk_var 5 0 3 True 0, mk_var 13 0 13 False 0] [mk_row_info 0 1 13] [0] 100"

text \<open>Two rows on the 4-bit ring, \<open>x\<^sub>0 + 2 x\<^sub>1 = 0\<close> with \<open>x\<^sub>0\<close> basic and out of its bounds
  \<open>[1, 2)\<close>, and \<open>x\<^sub>2 + x\<^sub>1 = 0\<close> with \<open>x\<^sub>2\<close> basic: the coefficient 2 of \<open>x\<^sub>1\<close> has more
  trailing zeros than its coefficient 1 in the other row.\<close>

definition tableau_gate :: "4 word fixplex" where
  "tableau_gate =
     mk_fixplex [[(0, 1), (1, 2)], [(2, 1), (1, 1)]]
       [mk_var 1 2 0 True 0, mk_var 0 0 0 False 0, mk_var 0 0 0 True 1]
       [mk_row_info 0 1 0, mk_row_info 2 1 0] [0] 100"

text \<open>Two rows on the 4-bit ring with \<open>x\<^sub>0\<close> and \<open>x\<^sub>2\<close> basic and \<open>x\<^sub>1 = 1\<close>:
  \<open>x\<^sub>0 + x\<^sub>1 = 0\<close> together with \<open>x\<^sub>2 + c x\<^sub>1 = 0\<close>, for \<open>c\<close> being 1, 2 and 3. Every
  row satisfies its invariant, exactly.\<close>

definition tableau_cascade :: "4 word \<Rightarrow> 4 word fixplex" where
  "tableau_cascade c =
     mk_fixplex [[(0, 1), (1, 1)], [(2, 1), (1, c)]]
       [mk_var 0 0 15 True 0, mk_var 0 0 1 False 0, mk_var 0 0 (- c) True 1]
       [mk_row_info 0 1 1, mk_row_info 2 1 c] [] 100"

text \<open>The row \<open>x\<^sub>0 + x\<^sub>1 = 0\<close> on the 4-bit ring with both variables bounded to \<open>[1, 2)\<close>,
  \<open>x\<^sub>0\<close> basic, and the iteration cap at its maximum \<^verbatim>\<open>UINT_MAX\<close>. \<open>cfgA\<close> and \<open>cfgB\<close> are
  the two configurations the feasibility loop alternates between on it. \<open>ext_cancel\<close>
  is \<open>ext_neg\<close> with a resource limit that fires at once.\<close>

definition tableau_cycle :: "4 word fixplex" where
  "tableau_cycle =
     mk_fixplex [[(0, 1), (1, 1)]]
       [mk_var 1 2 15 True 0, mk_var 1 2 1 False 0] [mk_row_info 0 1 1] [0] (- 1)"

definition ext_cancel :: "'a::len word ext" where
  "ext_cancel = ext_neg\<lparr>limit_ok := (\<lambda>k. False)\<rparr>"

definition cfgA :: "4 word fixplex \<Rightarrow> bool" where
  "cfgA s = (M s = [[(0, 1), (1, 1)]]
     \<and> m_vars s = [mk_var 1 2 15 True 0, mk_var 1 2 1 False 0]
     \<and> m_rows s = [mk_row_info 0 1 1] \<and> m_to_patch s = [0] \<and> m_max_iterations s = - 1)"

definition cfgB :: "4 word fixplex \<Rightarrow> bool" where
  "cfgB s = (M s = [[(0, 1), (1, 1)]]
     \<and> m_vars s = [mk_var 1 2 1 False 0, mk_var 1 2 15 True 0]
     \<and> m_rows s = [mk_row_info 1 1 1] \<and> m_to_patch s = [1] \<and> m_max_iterations s = - 1)"

text \<open>Two rows on the 4-bit ring, \<open>x\<^sub>0 + 3 x\<^sub>1 = 0\<close> with \<open>x\<^sub>0\<close> basic and
  \<open>x\<^sub>2 + x\<^sub>1 + 6 x\<^sub>3 = 0\<close> with \<open>x\<^sub>2\<close> basic, at \<open>x\<^sub>1 = 1\<close> and \<open>x\<^sub>3 = 1\<close>, so that
  \<open>x\<^sub>0 = 13\<close> and \<open>x\<^sub>2 = 9\<close>. Every row satisfies its invariant, exactly.\<close>

definition tableau_rescale :: "4 word fixplex" where
  "tableau_rescale =
     mk_fixplex [[(0, 1), (1, 3)], [(2, 1), (1, 1), (3, 6)]]
       [mk_var 0 0 13 True 0, mk_var 0 0 1 False 0, mk_var 0 0 9 True 1, mk_var 0 0 1 False 0]
       [mk_row_info 0 1 3, mk_row_info 2 1 7] [] 100"


section \<open>Notions used to state the properties\<close>

text \<open>
  The sums of the infeasibility proof as the spec words them: \<open>lo_sum\<close> is the ring sum
  of \<open>c\<^sub>i * lo(v\<^sub>i)\<close> and \<open>hi_sum\<close> the ring sum of \<open>c\<^sub>i * (hi(v\<^sub>i) - 1)\<close> over the entries
  of the row; \<open>checked_ranges\<close> accumulates the ranges \<open>c\<^sub>i * (hi(v\<^sub>i) - lo(v\<^sub>i))\<close> with the
  checked operations and is \<open>None\<close> when one of them overflows. \<open>row_sum val\<close> is the
  value of the row under the assignment \<open>val\<close>, and \<open>checked_ops\<close> says that the two
  checked operations compute the ring operation and succeed only if the result of the
  unsigned operation stays within the ring.
\<close>

definition row_lo_sum :: "'a::len word fixplex \<Rightarrow> 'a word row_entry list \<Rightarrow> 'a word" where
  "row_lo_sum s es = sum_list (map (\<lambda>e. snd e * lo s (fst e)) es)"

definition row_hi_sum :: "'a::len word fixplex \<Rightarrow> 'a word row_entry list \<Rightarrow> 'a word" where
  "row_hi_sum s es = sum_list (map (\<lambda>e. snd e * (hi s (fst e) - 1)) es)"

definition row_sum :: "(var_t \<Rightarrow> 'a::len word) \<Rightarrow> 'a word row_entry list \<Rightarrow> 'a word" where
  "row_sum val es = sum_list (map (\<lambda>e. snd e * val (fst e)) es)"

definition checked_ops :: "'a::len word ext \<Rightarrow> bool" where
  "checked_ops E =
     ((\<forall>x y r. m_signed_mul E x y = Some r \<longrightarrow> r = x * y \<and> unat x * unat y < 2 ^ LENGTH('a))
      \<and> (\<forall>x y r. m_signed_add E x y = Some r \<longrightarrow> r = x + y \<and> unat x + unat y < 2 ^ LENGTH('a)))"

fun checked_ranges ::
  "'a::len word ext \<Rightarrow> 'a word fixplex \<Rightarrow> 'a word row_entry list \<Rightarrow> 'a word \<Rightarrow> 'a word option" where
  "checked_ranges E s [] diff = Some diff"
| "checked_ranges E s (e # es) diff =
     (case m_signed_mul E (snd e) (hi s (fst e) - lo s (fst e)) of
        None \<Rightarrow> None
      | Some r \<Rightarrow>
         (case m_signed_add E diff r of
            None \<Rightarrow> None
          | Some diff' \<Rightarrow> checked_ranges E s es diff'))"

text \<open>
  The row invariant. \<open>nonbase_sum s r\<close> is the ring sum of coefficient times value over
  the entries of row \<open>r\<close> other than its base variable. \<open>row_invariant\<close> says that the
  cached value of the row is this sum and that the value of the base variable is
  \<open>0 - (cached value div base coefficient)\<close>, the expression the source assigns, with
  the truncating division; \<open>row_exact\<close> says that this division is exact in the ring,
  that is, the equation of the row holds.
\<close>

definition nonbase_sum :: "'a::len word fixplex \<Rightarrow> nat \<Rightarrow> 'a word" where
  "nonbase_sum s r =
     sum_list (map (\<lambda>e. snd e * value_of s (fst e))
       (filter (\<lambda>e. fst e \<noteq> m_base (m_rows s ! r)) (M_row_entries (M s) r)))"

definition row_invariant :: "'a::len word fixplex \<Rightarrow> nat \<Rightarrow> bool" where
  "row_invariant s r =
     (m_row_value (m_rows s ! r) = nonbase_sum s r
      \<and> value_of s (m_base (m_rows s ! r))
          = 0 - (m_row_value (m_rows s ! r) div m_base_coeff (m_rows s ! r)))"

definition row_exact :: "'a::len word fixplex \<Rightarrow> nat \<Rightarrow> bool" where
  "row_exact s r =
     (m_base_coeff (m_rows s ! r) * value_of s (m_base (m_rows s ! r))
        + m_row_value (m_rows s ! r) = 0)"

text \<open>
  The ownership invariant. \<open>wf_tableau\<close> says that the stores fit together: every row
  of the matrix has its \<^verbatim>\<open>row_info\<close>, and the variables of the matrix and of the
  To-Patch Set are registered. \<open>basis_invariant\<close> is the invariant of the data model as
  the code keeps it: every row owns its base variable, which is marked basic and points
  back to the row through \<^verbatim>\<open>m_base2row\<close>, and every variable marked basic is the base
  variable of the row it points to. \<open>one_base_per_row\<close> is the invariant as the spec
  words it: exactly the variables marked basic have an owning row, each row owns one
  basic variable, and two distinct rows never own the same variable.
\<close>

definition wf_tableau :: "'n fixplex \<Rightarrow> bool" where
  "wf_tableau s =
     (length (m_rows s) = length (M s)
      \<and> (\<forall>r < length (M s). \<forall>e \<in> set (M s ! r). fst e < length (m_vars s))
      \<and> (\<forall>v \<in> set (m_to_patch s). v < length (m_vars s)))"

definition basis_invariant :: "'n fixplex \<Rightarrow> bool" where
  "basis_invariant s =
     ((\<forall>r < length (m_rows s).
          m_base (m_rows s ! r) < length (m_vars s)
          \<and> is_base s (m_base (m_rows s ! r))
          \<and> m_base2row (m_vars s ! m_base (m_rows s ! r)) = r)
      \<and> (\<forall>v < length (m_vars s).
          is_base s v \<longrightarrow>
            m_base2row (m_vars s ! v) < length (m_rows s)
            \<and> m_base (m_rows s ! m_base2row (m_vars s ! v)) = v))"


text \<open>\<open>frame s s'\<close>: the state \<open>s'\<close> has the matrix, the basic flags and the ownership of
  \<open>s\<close>, and its To-Patch Set holds only members of that of \<open>s\<close> and base variables.\<close>

definition frame :: "'n fixplex \<Rightarrow> 'n fixplex \<Rightarrow> bool" where
  "frame s s' =
     (M s' = M s \<and> length (m_vars s') = length (m_vars s) \<and> length (m_rows s') = length (m_rows s)
      \<and> (\<forall>v < length (m_vars s).
            m_is_base (m_vars s' ! v) = m_is_base (m_vars s ! v)
            \<and> m_base2row (m_vars s' ! v) = m_base2row (m_vars s ! v))
      \<and> (\<forall>r < length (m_rows s). m_base (m_rows s' ! r) = m_base (m_rows s ! r))
      \<and> (\<forall>v \<in> set (m_to_patch s').
            v \<in> set (m_to_patch s) \<or> (\<exists>r < length (m_rows s). v = m_base (m_rows s ! r))))"

text \<open>
  The rows a pivot cascades to. \<open>cascaded_bases s r v\<close> lists the base variables of the
  rows other than \<open>r\<close> that hold the variable \<open>v\<close>: a pivot on row \<open>r\<close> with the
  entering variable \<open>v\<close> rewrites these rows and recomputes the values of these
  variables. \<open>cascade_frame r Z t u\<close> says what such a cascade leaves as it is between
  the states \<open>t\<close> and \<open>u\<close>: the sizes of the stores, the basic flag, the owning row and
  the bounds of every variable, the value of every variable outside \<open>Z\<close>, the base
  variable of every row, and the row information of row \<open>r\<close>.
\<close>

definition cascaded_bases :: "'n fixplex \<Rightarrow> nat \<Rightarrow> var_t \<Rightarrow> var_t list" where
  "cascaded_bases s r v =
     map (\<lambda>rz. m_base (m_rows s ! rz)) (filter (\<lambda>rz. rz \<noteq> r) (map fst (M_col_entries (M s) v)))"

definition cascade_frame :: "nat \<Rightarrow> var_t set \<Rightarrow> 'n fixplex \<Rightarrow> 'n fixplex \<Rightarrow> bool" where
  "cascade_frame r Z t u =
     (length (m_vars u) = length (m_vars t) \<and> length (m_rows u) = length (m_rows t)
      \<and> (\<forall>v < length (m_vars t).
            m_is_base (m_vars u ! v) = m_is_base (m_vars t ! v)
            \<and> m_base2row (m_vars u ! v) = m_base2row (m_vars t ! v)
            \<and> m_lo (m_vars u ! v) = m_lo (m_vars t ! v)
            \<and> m_hi (m_vars u ! v) = m_hi (m_vars t ! v)
            \<and> (v \<notin> Z \<longrightarrow> m_value (m_vars u ! v) = m_value (m_vars t ! v)))
      \<and> (\<forall>r' < length (m_rows t). m_base (m_rows u ! r') = m_base (m_rows t ! r'))
      \<and> m_rows u ! r = m_rows t ! r)"

section \<open>Bounds\<close>

text \<open>
  C10. For every value and bounds on the ring, \<open>in_bounds\<close> holds when the bounds are
  equal; it is \<open>l \<le> val \<and> val < h\<close> when \<open>l < h\<close>, and \<open>val < h \<or> l \<le> val\<close> when
  \<open>l > h\<close>.
\<close>

theorem in_bounds_cases:
  "(l = h \<longrightarrow> in_bounds val l h)
   \<and> (l < h \<longrightarrow> in_bounds val l h = (l \<le> val \<and> val < h))
   \<and> (h < l \<longrightarrow> in_bounds val l h = (val < h \<or> l \<le> val))"
  by (auto simp: in_bounds_def)

theorem in_bounds_cases_witness:
  "in_bounds (0 :: 4 word) 7 7 \<and> in_bounds (15 :: 4 word) 7 7
   \<and> in_bounds (4 :: 4 word) 3 9 \<and> \<not> in_bounds (9 :: 4 word) 3 9
   \<and> in_bounds (1 :: 4 word) 12 2 \<and> \<not> in_bounds (5 :: 4 word) 12 2"
  using in_bounds_cases [of "7 :: 4 word" 7 0] in_bounds_cases [of "7 :: 4 word" 7 15]
    in_bounds_cases [of "3 :: 4 word" 9 4] in_bounds_cases [of "3 :: 4 word" 9 9]
    in_bounds_cases [of "12 :: 4 word" 2 1] in_bounds_cases [of "12 :: 4 word" 2 5]
  by simp

section \<open>Choice of the bound to move to\<close>

lemma unat_succ: "(x :: 'a::len word) + 1 \<noteq> 0 \<Longrightarrow> unat (x + 1) = Suc (unat x)"
  using unatSuc [of x] by (simp add: add.commute)

lemma h_pred_in_bounds: "l \<noteq> h \<Longrightarrow> in_bounds (h - 1) l (h :: 'a::len word)"
proof (cases "h = 0")
  case True
  then show ?thesis by (simp add: in_bounds_def)
next
  case False
  then have u: "unat (h - 1) = unat h - 1" by (simp add: unat_minus_one)
  from False have "unat h \<noteq> 0" by (simp add: unat_eq_0)
  with u show ?thesis
    by (auto simp: in_bounds_def word_less_nat_alt word_le_nat_alt)
qed

lemma out_of_bounds_step:
  assumes "\<not> in_bounds val l (h :: 'a::len word)"
  shows "unat (val - (h - 1)) = Suc (unat (val - h))"
proof -
  from assms have "l \<noteq> h" by (auto simp: in_bounds_def)
  with assms h_pred_in_bounds [of l h] have "val \<noteq> h - 1" by auto
  then have "(val - h) + 1 \<noteq> 0"
    by (metis add_diff_cancel_right' diff_diff_eq2 add.commute diff_add_cancel eq_iff_diff_eq_0)
  then have "unat ((val - h) + 1) = Suc (unat (val - h))" by (rule unat_succ)
  moreover have "(val - h) + 1 = val - (h - 1)" by simp
  ultimately show ?thesis by simp
qed

lemma new_value_delta_fst:
  "\<not> in_bounds val l h \<Longrightarrow>
   fst (new_value_delta l h val) = (if unat (l - val) + 1 < unat (val - (h - 1)) then l else h - 1)"
  by (simp add: new_value_delta_def out_of_bounds_step word_less_nat_alt)

text \<open>
  C7, as stated, fails: on the 4-bit ring with the bounds \<open>[5, 3)\<close> and the value 4,
  the step up to \<open>lo = 5\<close> is 1 and the step down to \<open>hi - 1 = 2\<close> is 2, and
  \<^verbatim>\<open>make_var_feasible\<close> moves the variable to \<open>hi - 1\<close>, the farther bound.
\<close>

theorem new_value_not_nearer_bound:
  "\<not> in_bounds_var tableau_near 0
   \<and> unat (lo tableau_near 0 - value_of tableau_near 0) = 1
   \<and> unat (value_of tableau_near 0 - (hi tableau_near 0 - 1)) = 2
   \<and> (case make_var_feasible ext_neg tableau_near 0 of
         Inl e \<Rightarrow> False
       | Inr r \<Rightarrow> fst r = l_true \<and> value_of (snd r) 0 = hi tableau_near 0 - 1
                 \<and> value_of (snd r) 0 \<noteq> lo tableau_near 0)"
  by code_simp

text \<open>
  C7, amended. A variable that is in bounds is left alone: \<^verbatim>\<open>make_var_feasible\<close>
  answers \<^verbatim>\<open>l_true\<close> with the state unchanged, without a pivot. For a variable out of
  bounds, \<^verbatim>\<open>new_value\<close> is \<open>lo\<close> when \<open>lo - val < val - hi\<close> in the ring, which is when
  the step up to \<open>lo\<close> is smaller by at least two than the step down to \<open>hi - 1\<close>, and
  \<open>hi - 1\<close> in every other case; this is the value handed to \<^verbatim>\<open>pivot\<close>.
\<close>

theorem make_var_feasible_new_value:
  "(in_bounds_var s x \<longrightarrow> make_var_feasible E s x = Inr (l_true, s))
   \<and> (\<not> in_bounds_var s x \<longrightarrow>
        fst (new_value_delta (lo s x) (hi s x) (value_of s x)) =
          (if unat (lo s x - value_of s x) + 1 < unat (value_of s x - (hi s x - 1))
           then lo s x else hi s x - 1)
        \<and> (\<forall>y b s1.
             select_pivot_core E s x (snd (new_value_delta (lo s x) (hi s x) (value_of s x)))
               (fst (new_value_delta (lo s x) (hi s x) (value_of s x))) = Inr (Some (y, b), s1)
             \<longrightarrow> make_var_feasible E s x =
                 (case pivot E s1 x y b (fst (new_value_delta (lo s x) (hi s x) (value_of s x))) of
                    Inl e \<Rightarrow> Inl e | Inr s2 \<Rightarrow> Inr (l_true, s2))))"
proof (intro conjI impI allI)
  assume "in_bounds_var s x"
  then show "make_var_feasible E s x = Inr (l_true, s)"
    by (simp add: make_var_feasible_def)
next
  assume "\<not> in_bounds_var s x"
  then show "fst (new_value_delta (lo s x) (hi s x) (value_of s x)) =
          (if unat (lo s x - value_of s x) + 1 < unat (value_of s x - (hi s x - 1))
           then lo s x else hi s x - 1)"
    unfolding in_bounds_var_def by (rule new_value_delta_fst)
next
  fix y b s1
  assume "\<not> in_bounds_var s x"
    and "select_pivot_core E s x (snd (new_value_delta (lo s x) (hi s x) (value_of s x)))
               (fst (new_value_delta (lo s x) (hi s x) (value_of s x))) = Inr (Some (y, b), s1)"
  then show "make_var_feasible E s x =
                 (case pivot E s1 x y b (fst (new_value_delta (lo s x) (hi s x) (value_of s x))) of
                    Inl e \<Rightarrow> Inl e | Inr s2 \<Rightarrow> Inr (l_true, s2))"
    by (simp add: make_var_feasible_def Let_def)
qed

theorem make_var_feasible_new_value_witness:
  "make_var_feasible ext_neg tableau_near 1 = Inr (l_true, tableau_near)
   \<and> fst (new_value_delta (lo tableau_near 0) (hi tableau_near 0) (value_of tableau_near 0)) = 2
   \<and> make_var_feasible ext_neg tableau_near 0 =
       (case pivot ext_neg tableau_near 0 1 1 2 of Inl e \<Rightarrow> Inl e | Inr s2 \<Rightarrow> Inr (l_true, s2))"
proof -
  have a: "in_bounds_var tableau_near 1" by code_simp
  have b: "\<not> in_bounds_var tableau_near 0" by code_simp
  have c: "fst (new_value_delta (lo tableau_near 0) (hi tableau_near 0) (value_of tableau_near 0)) = 2"
    by code_simp
  have d: "select_pivot_core ext_neg tableau_near 0
             (snd (new_value_delta (lo tableau_near 0) (hi tableau_near 0) (value_of tableau_near 0)))
             (fst (new_value_delta (lo tableau_near 0) (hi tableau_near 0) (value_of tableau_near 0)))
           = Inr (Some (1, 1), tableau_near)"
    by code_simp
  from a make_var_feasible_new_value [of tableau_near 1 ext_neg]
  have 1: "make_var_feasible ext_neg tableau_near 1 = Inr (l_true, tableau_near)" by blast
  from b d make_var_feasible_new_value [of tableau_near 0 ext_neg]
  have 2: "make_var_feasible ext_neg tableau_near 0 =
       (case pivot ext_neg tableau_near 0 1 1
          (fst (new_value_delta (lo tableau_near 0) (hi tableau_near 0) (value_of tableau_near 0))) of
          Inl e \<Rightarrow> Inl e | Inr s2 \<Rightarrow> Inr (l_true, s2))" by blast
  from 1 2 c show ?thesis by simp
qed


section \<open>Contract violations\<close>

lemma fold_add_row_entry:
  "fold (add_row_entry (length B)) ps (B @ [row]) = B @ [row @ filter (\<lambda>e. snd e \<noteq> 0) ps]"
  by (induction ps arbitrary: row) (auto simp: M_add_var_def add_row_entry_def)

lemma add_row_scan_base_coeff:
  "\<forall>e \<in> set es. fst e \<noteq> base_var \<Longrightarrow>
   fst (fold (add_row_scan s base_var) es (bc, val, bvs)) = bc"
  by (induction es arbitrary: val bvs) (auto simp: add_row_scan_def)

lemma add_row_zero_base_coeff:
  assumes "\<forall>vc \<in> set (take num_vars (zip vars coeffs)). fst vc = base_var \<longrightarrow> snd vc = 0"
  shows "add_row s base_var num_vars vars coeffs = Some (Inl Assertion_violation)"
proof -
  let ?ps = "take num_vars (zip vars coeffs)"
  let ?es = "filter (\<lambda>e. snd e \<noteq> 0) ?ps"
  have A: "fold (add_row_entry (length (M s))) ?ps (M s @ [[]]) = M s @ [?es]"
    using fold_add_row_entry [of "M s" ?ps "[]"] by simp
  have "\<forall>e \<in> set ?es. fst e \<noteq> base_var" using assms by auto
  then have "fst (fold (add_row_scan (s\<lparr>m_base_vars := [], M := M s @ [?es]\<rparr>) base_var) ?es (0, 0, [])) = 0"
    by (rule add_row_scan_base_coeff)
  then obtain val bvs where
    "fold (add_row_scan (s\<lparr>m_base_vars := [], M := M s @ [?es]\<rparr>) base_var) ?es (0, 0, []) = (0, val, bvs)"
    by (metis prod.collapse)
  then show ?thesis
    unfolding add_row_def
    by (simp add: M_mk_row_def A Let_def M_row_entries_def)
qed

lemma update_value_basic:
  "is_base s v \<Longrightarrow> delta \<noteq> 0 \<Longrightarrow> update_value s v delta = Inl Assertion_violation"
  by (cases "v < length (m_vars s)") (simp_all add: update_value_def Let_def is_base_def list_update_beyond)

text \<open>
  C9, amended. \<^verbatim>\<open>add_row\<close> with a zero base coefficient (no entry among the first
  \<open>num_vars\<close> gives \<open>base_var\<close> a nonzero coefficient) fails its assertion, and so
  does \<^verbatim>\<open>update_value\<close> on a basic variable with a nonzero \<open>delta\<close>; with \<open>delta = 0\<close>
  \<^verbatim>\<open>update_value\<close> returns at once with the state unchanged, whatever the variable.
\<close>

theorem contract_violations:
  "((\<forall>vc \<in> set (take num_vars (zip vars coeffs)). fst vc = base_var \<longrightarrow> snd vc = 0)
      \<longrightarrow> add_row s base_var num_vars vars coeffs = Some (Inl Assertion_violation))
   \<and> (is_base s v \<and> delta \<noteq> 0 \<longrightarrow> update_value s v delta = Inl Assertion_violation)
   \<and> update_value s v 0 = Inr s"
  using add_row_zero_base_coeff [of num_vars vars coeffs base_var s] update_value_basic [of s v delta]
  by (simp add: update_value_def)

text \<open>
  C9, as stated, fails: \<^verbatim>\<open>update_value\<close> on a basic variable with \<open>delta = 0\<close> is not
  rejected; it returns normally.
\<close>

theorem update_value_basic_zero_tolerated:
  "is_base tableau_near 0 \<and> update_value tableau_near 0 0 = Inr tableau_near"
  by code_simp

theorem contract_violations_witness:
  "add_row tableau_near 2 2 [2, 1] [0, 3 :: 4 word] = Some (Inl Assertion_violation)
   \<and> update_value tableau_near 0 (1 :: 4 word) = Inl Assertion_violation
   \<and> update_value tableau_near 0 0 = Inr tableau_near"
proof -
  have a: "\<forall>vc \<in> set (take 2 (zip [2, 1] [0, 3 :: 4 word])). fst vc = (2::nat) \<longrightarrow> snd vc = 0"
    by simp
  have b: "is_base tableau_near 0 \<and> (1 :: 4 word) \<noteq> 0" by code_simp
  from a b contract_violations [of 2 "[2, 1]" "[0, 3 :: 4 word]" 2 tableau_near 0 1]
  show ?thesis by blast
qed


section \<open>Infeasibility proof\<close>

lemma is_infeasible_row_loop_eq:
  "is_infeasible_row_loop E s es lo_sum hi_sum diff =
     ((\<forall>e \<in> set es. lo s (fst e) \<noteq> hi s (fst e))
      \<and> checked_ranges E s es diff \<noteq> None
      \<and> 0 < lo_sum + row_lo_sum s es
      \<and> lo_sum + row_lo_sum s es \<le> hi_sum + row_hi_sum s es)"
proof (induction es arbitrary: lo_sum hi_sum diff)
  case Nil
  then show ?case by (simp add: row_lo_sum_def row_hi_sum_def)
next
  case (Cons e es)
  show ?case
  proof (cases "lo s (fst e) = hi s (fst e)")
    case True
    then show ?thesis by simp
  next
    case False
    show ?thesis
    proof (cases "m_signed_mul E (snd e) (hi s (fst e) - lo s (fst e))")
      case None
      with False show ?thesis by simp
    next
      case (Some r)
      show ?thesis
      proof (cases "m_signed_add E diff r")
        case None
        with False Some show ?thesis by simp
      next
        case d: (Some diff')
        with False Some Cons.IH [of "lo_sum + lo s (fst e) * snd e" "hi_sum + (hi s (fst e) - 1) * snd e" diff']
        show ?thesis
          by (simp add: Let_def row_lo_sum_def row_hi_sum_def add.assoc mult.commute)
      qed
    qed
  qed
qed


lemma nat_offset:
  fixes a l h n :: nat
  assumes "a < n" "l < n" "h < n" "l \<noteq> h"
    and "if l < h then l \<le> a \<and> a < h else a < h \<or> l \<le> a"
  shows "(if l \<le> a then a - l else a + n - l) < (if l \<le> h then h - l else h + n - l)"
  using assms by (auto split: if_splits)

lemma in_bounds_offset:
  assumes "l \<noteq> h" and "in_bounds v l (h :: 'a::len word)"
  shows "unat (v - l) < unat (h - l)"
proof -
  from assms(1) have ne: "unat l \<noteq> unat h" by (simp add: word_unat_eq_iff)
  from assms have c: "if unat l < unat h then unat l \<le> unat v \<and> unat v < unat h
      else unat v < unat h \<or> unat l \<le> unat v"
    by (auto simp: in_bounds_def word_less_nat_alt word_le_nat_alt split: if_splits)
  have "(if unat l \<le> unat v then unat v - unat l else unat v + 2 ^ LENGTH('a) - unat l)
      < (if unat l \<le> unat h then unat h - unat l else unat h + 2 ^ LENGTH('a) - unat l)"
    by (rule nat_offset [OF _ _ _ ne c]) simp_all
  then show ?thesis by (auto simp: unat_sub_if_size word_size split: if_splits)
qed

lemma sum_list_offset:
  fixes f g :: "'b \<Rightarrow> 'a::len word" and k :: "'b \<Rightarrow> nat"
  assumes "\<And>e. e \<in> set es \<Longrightarrow> f e = g e + of_nat (k e)"
  shows "sum_list (map f es) = sum_list (map g es) + of_nat (sum_list (map k es))"
  using assms
proof (induction es)
  case Nil
  then show ?case by simp
next
  case (Cons e es)
  have "f e = g e + of_nat (k e)" by (rule Cons.prems) simp
  moreover have "sum_list (map f es) = sum_list (map g es) + of_nat (sum_list (map k es))"
    by (rule Cons.IH) (simp add: Cons.prems)
  ultimately have "sum_list (map f (e # es))
      = (g e + of_nat (k e)) + (sum_list (map g es) + of_nat (sum_list (map k es)))"
    by (simp only: list.map sum_list.Cons)
  also have "\<dots> = sum_list (map g (e # es)) + of_nat (sum_list (map k (e # es)))"
    by simp
  finally show ?case .
qed

lemma mult_offset:
  fixes c v l :: "'a::len word"
  shows "c * v = c * l + of_nat (unat c * unat (v - l))"
proof -
  have "c * (v - l) = of_nat (unat c * unat (v - l))" by (fact word_arith_nat_mult)
  then have "c * l + of_nat (unat c * unat (v - l)) = c * l + c * (v - l)" by (simp only:)
  also have "\<dots> = c * v" by (simp only: right_diff_distrib add_diff_eq add_diff_cancel_left')
  finally show ?thesis by (simp only:)
qed

lemma row_sum_split:
  "row_sum val es =
     row_lo_sum s es + of_nat (\<Sum>e\<leftarrow>es. unat (snd e) * unat (val (fst e) - lo s (fst e)))"
  unfolding row_sum_def row_lo_sum_def
  by (rule sum_list_offset) (rule mult_offset)

lemma row_hi_sum_split:
  assumes "\<forall>e \<in> set es. lo s (fst e) \<noteq> hi s (fst e)"
  shows "row_hi_sum s es =
     row_lo_sum s es + of_nat (\<Sum>e\<leftarrow>es. unat (snd e) * (unat (hi s (fst e) - lo s (fst e)) - 1))"
  unfolding row_hi_sum_def row_lo_sum_def
proof (rule sum_list_offset)
  fix e assume "e \<in> set es"
  with assms have "hi s (fst e) - lo s (fst e) \<noteq> 0" by auto
  then have u: "unat (hi s (fst e) - lo s (fst e) - 1) = unat (hi s (fst e) - lo s (fst e)) - 1"
    by (rule unat_minus_one)
  have "hi s (fst e) - 1 - lo s (fst e) = hi s (fst e) - lo s (fst e) - 1" by simp
  with mult_offset [of "snd e" "hi s (fst e) - 1" "lo s (fst e)"] u
  show "snd e * (hi s (fst e) - 1)
      = snd e * lo s (fst e) + of_nat (unat (snd e) * (unat (hi s (fst e) - lo s (fst e)) - 1))"
    by (simp only:)
qed

lemma checked_ranges_unat:
  assumes "checked_ops E" and "checked_ranges E s es d = Some d'"
  shows "unat d' = unat d + (\<Sum>e\<leftarrow>es. unat (snd e) * unat (hi s (fst e) - lo s (fst e)))"
  using assms(2)
proof (induction es arbitrary: d)
  case Nil
  then show ?case by simp
next
  case (Cons e es)
  from Cons.prems obtain r d1 where
    m: "m_signed_mul E (snd e) (hi s (fst e) - lo s (fst e)) = Some r"
    and a: "m_signed_add E d r = Some d1"
    and rest: "checked_ranges E s es d1 = Some d'"
    by (auto split: option.splits)
  from assms(1) have "r = snd e * (hi s (fst e) - lo s (fst e))
      \<and> unat (snd e) * unat (hi s (fst e) - lo s (fst e)) < 2 ^ LENGTH('a)"
    unfolding checked_ops_def using m by blast
  then have "unat r = unat (snd e) * unat (hi s (fst e) - lo s (fst e))"
    by (simp add: unat_mult_lem)
  moreover from assms(1) have "d1 = d + r \<and> unat d + unat r < 2 ^ LENGTH('a)"
    unfolding checked_ops_def using a by blast
  then have "unat d1 = unat d + unat r"
    by (simp add: unat_add_lem)
  moreover note Cons.IH [OF rest]
  ultimately show ?case by simp
qed

lemma is_infeasible_row_loop_sound:
  assumes ops: "checked_ops E"
    and inf: "is_infeasible_row_loop E s es 0 0 0"
    and inb: "\<forall>e \<in> set es. in_bounds (val (fst e)) (lo s (fst e)) (hi s (fst e))"
  shows "row_sum val es \<noteq> (0 :: 'a::len word)"
proof -
  let ?T = "\<Sum>e\<leftarrow>es. unat (snd e) * unat (val (fst e) - lo s (fst e))"
  let ?Tmax = "\<Sum>e\<leftarrow>es. unat (snd e) * (unat (hi s (fst e) - lo s (fst e)) - 1)"
  let ?D = "\<Sum>e\<leftarrow>es. unat (snd e) * unat (hi s (fst e) - lo s (fst e))"
  from inf have ne: "\<forall>e \<in> set es. lo s (fst e) \<noteq> hi s (fst e)"
    and cr: "checked_ranges E s es 0 \<noteq> None"
    and pos: "0 < row_lo_sum s es"
    and le: "row_lo_sum s es \<le> row_hi_sum s es"
    by (simp_all add: is_infeasible_row_loop_eq)
  from cr obtain d' where "checked_ranges E s es 0 = Some d'" by auto
  from checked_ranges_unat [OF ops this] have "unat d' = ?D" by simp
  moreover have "unat d' < 2 ^ LENGTH('a)" by simp
  ultimately have D: "?D < 2 ^ LENGTH('a)" by simp
  have "?Tmax \<le> ?D" by (rule sum_list_mono) simp
  with D have Tmax: "?Tmax < 2 ^ LENGTH('a)" by simp
  have "?T \<le> ?Tmax"
  proof (rule sum_list_mono)
    fix e assume "e \<in> set es"
    with ne inb in_bounds_offset [of "lo s (fst e)" "hi s (fst e)" "val (fst e)"]
    have "unat (val (fst e) - lo s (fst e)) < unat (hi s (fst e) - lo s (fst e))" by blast
    then have "unat (val (fst e) - lo s (fst e)) \<le> unat (hi s (fst e) - lo s (fst e)) - 1"
      by arith
    then show "unat (snd e) * unat (val (fst e) - lo s (fst e))
        \<le> unat (snd e) * (unat (hi s (fst e) - lo s (fst e)) - 1)"
      by (rule mult_le_mono2)
  qed
  from le row_hi_sum_split [OF ne]
  have "row_lo_sum s es \<le> row_lo_sum s es + (of_nat ?Tmax :: 'a word)" by simp
  then have "unat (row_lo_sum s es) + unat (of_nat ?Tmax :: 'a word) < 2 ^ LENGTH('a)"
    by (simp add: no_plus_overflow_unat_size word_size)
  with Tmax have "unat (row_lo_sum s es) + ?Tmax < 2 ^ LENGTH('a)"
    by (simp add: unat_of_nat)
  with \<open>?T \<le> ?Tmax\<close> have small: "unat (row_lo_sum s es) + ?T < 2 ^ LENGTH('a)" by simp
  then have "?T < 2 ^ LENGTH('a)" by simp
  then have "unat (of_nat ?T :: 'a word) = ?T" by (simp add: unat_of_nat)
  with small have "unat (row_lo_sum s es + of_nat ?T) = unat (row_lo_sum s es) + ?T"
    using unat_add_lem [of "row_lo_sum s es" "of_nat ?T :: 'a word"] by simp
  moreover from pos have "0 < unat (row_lo_sum s es)" by (simp add: word_less_nat_alt)
  ultimately have "unat (row_lo_sum s es + of_nat ?T) \<noteq> 0" by simp
  then have "row_lo_sum s es + of_nat ?T \<noteq> 0" by auto
  then show ?thesis by (simp add: row_sum_split [of val es s])
qed

text \<open>
  C1. For the row of a basic variable \<open>x\<close>, \<^verbatim>\<open>is_infeasible_row\<close> answers true
  exactly if no variable of the row is unconstrained, no range computation overflows
  the checked arithmetic, and \<open>0 < lo_sum \<and> lo_sum \<le> hi_sum\<close>; it answers false as soon
  as a variable is unconstrained or a checked operation overflows. When the checked
  operations are overflow-checked ring operations, a true answer is never wrong: no
  assignment within the bounds satisfies the equation of the row.
\<close>

theorem is_infeasible_row_iff:
  "is_base s x \<Longrightarrow>
   is_infeasible_row E s x =
     Inr ((\<forall>e \<in> set (M_row_entries (M s) (m_base2row (m_vars s ! x))). lo s (fst e) \<noteq> hi s (fst e))
          \<and> checked_ranges E s (M_row_entries (M s) (m_base2row (m_vars s ! x))) 0 \<noteq> None
          \<and> 0 < row_lo_sum s (M_row_entries (M s) (m_base2row (m_vars s ! x)))
          \<and> row_lo_sum s (M_row_entries (M s) (m_base2row (m_vars s ! x)))
              \<le> row_hi_sum s (M_row_entries (M s) (m_base2row (m_vars s ! x))))
   \<and> (checked_ops E \<and> is_infeasible_row E s x = Inr True
        \<and> (\<forall>e \<in> set (M_row_entries (M s) (m_base2row (m_vars s ! x))).
              in_bounds (val (fst e)) (lo s (fst e)) (hi s (fst e)))
       \<longrightarrow> row_sum val (M_row_entries (M s) (m_base2row (m_vars s ! x))) \<noteq> 0)"
proof (intro conjI impI)
  assume "is_base s x"
  then show "is_infeasible_row E s x =
     Inr ((\<forall>e \<in> set (M_row_entries (M s) (m_base2row (m_vars s ! x))). lo s (fst e) \<noteq> hi s (fst e))
          \<and> checked_ranges E s (M_row_entries (M s) (m_base2row (m_vars s ! x))) 0 \<noteq> None
          \<and> 0 < row_lo_sum s (M_row_entries (M s) (m_base2row (m_vars s ! x)))
          \<and> row_lo_sum s (M_row_entries (M s) (m_base2row (m_vars s ! x)))
              \<le> row_hi_sum s (M_row_entries (M s) (m_base2row (m_vars s ! x))))"
    by (simp add: is_infeasible_row_def is_infeasible_row_loop_eq)
next
  assume b: "is_base s x"
    and h: "checked_ops E \<and> is_infeasible_row E s x = Inr True
        \<and> (\<forall>e \<in> set (M_row_entries (M s) (m_base2row (m_vars s ! x))).
              in_bounds (val (fst e)) (lo s (fst e)) (hi s (fst e)))"
  from b h have l: "is_infeasible_row_loop E s (M_row_entries (M s) (m_base2row (m_vars s ! x))) 0 0 0"
    by (simp add: is_infeasible_row_def)
  from h have ops: "checked_ops E"
    and inb: "\<forall>e \<in> set (M_row_entries (M s) (m_base2row (m_vars s ! x))).
              in_bounds (val (fst e)) (lo s (fst e)) (hi s (fst e))"
    by simp_all
  show "row_sum val (M_row_entries (M s) (m_base2row (m_vars s ! x))) \<noteq> 0"
    by (rule is_infeasible_row_loop_sound [OF ops l inb])
qed


lemma checked_ops_ext_neg: "checked_ops (ext_neg :: 'a::len word ext)"
  by (simp add: checked_ops_def ext_neg_def checked_mul_def checked_add_def)

theorem is_infeasible_row_iff_witness:
  "is_infeasible_row ext_neg tableau_infeasible 0 = Inr True
   \<and> is_infeasible_row ext_neg tableau_near 0 = Inr False
   \<and> row_sum (\<lambda>v. if v = 0 then 5 else 13) (M_row_entries (M tableau_infeasible) 0) \<noteq> (0 :: 4 word)"
proof -
  let ?val = "\<lambda>v :: nat. if v = 0 then 5 else (13 :: 4 word)"
  let ?es = "M_row_entries (M tableau_infeasible) (m_base2row (m_vars tableau_infeasible ! 0))"
  let ?es' = "M_row_entries (M tableau_near) (m_base2row (m_vars tableau_near ! 0))"
  have b: "is_base tableau_infeasible 0" by code_simp
  have b': "is_base tableau_near 0" by code_simp
  have r: "m_base2row (m_vars tableau_infeasible ! 0) = 0" by code_simp
  have c: "(\<forall>e \<in> set ?es. lo tableau_infeasible (fst e) \<noteq> hi tableau_infeasible (fst e))
      \<and> checked_ranges ext_neg tableau_infeasible ?es 0 \<noteq> None
      \<and> 0 < row_lo_sum tableau_infeasible ?es
      \<and> row_lo_sum tableau_infeasible ?es \<le> row_hi_sum tableau_infeasible ?es"
    by code_simp
  have c': "\<not> (\<forall>e \<in> set ?es'. lo tableau_near (fst e) \<noteq> hi tableau_near (fst e))"
    by code_simp
  have i: "\<forall>e \<in> set ?es. in_bounds (?val (fst e)) (lo tableau_infeasible (fst e))
      (hi tableau_infeasible (fst e))"
    by code_simp
  from is_infeasible_row_iff [OF b, of ext_neg ?val] c
  have 1: "is_infeasible_row ext_neg tableau_infeasible 0 = Inr True"
    and s: "checked_ops (ext_neg :: 4 word ext) \<and> is_infeasible_row ext_neg tableau_infeasible 0 = Inr True
        \<and> (\<forall>e \<in> set ?es. in_bounds (?val (fst e)) (lo tableau_infeasible (fst e))
              (hi tableau_infeasible (fst e)))
       \<longrightarrow> row_sum ?val ?es \<noteq> 0"
    by simp_all
  from s 1 i checked_ops_ext_neg have 3: "row_sum ?val ?es \<noteq> 0" by blast
  from is_infeasible_row_iff [OF b', of ext_neg ?val] c'
  have 2: "is_infeasible_row ext_neg tableau_near 0 = Inr False" by simp
  from 1 2 3 r show ?thesis by simp
qed


section \<open>Pivot selection\<close>

lemma has_minimal_trailing_zeros_loop_iff:
  "has_minimal_trailing_zeros_loop tz1 cols = (\<forall>col \<in> set cols. tz1 \<le> trailing_zeros (snd col))"
  by (induction cols) auto

lemma has_minimal_trailing_zeros_iff:
  "has_minimal_trailing_zeros s y b =
     (\<forall>col \<in> set (M_col_entries (M s) y). trailing_zeros b \<le> trailing_zeros (snd col))"
  by (simp add: has_minimal_trailing_zeros_def Let_def has_minimal_trailing_zeros_loop_iff)

lemma select_pivot_step_skip:
  "fst e = x \<or> \<not> has_minimal_trailing_zeros s (fst e) (snd e) \<Longrightarrow>
   select_pivot_step E s x new_value row_value a e st = st"
  by (auto simp: select_pivot_step_def Let_def)

lemma select_pivot_step_result:
  "(result (select_pivot_step E s x new_value row_value a e st) = result st
      \<and> out_b (select_pivot_step E s x new_value row_value a e st) = out_b st)
   \<or> (result (select_pivot_step E s x new_value row_value a e st) = fst e
      \<and> out_b (select_pivot_step E s x new_value row_value a e st) = snd e
      \<and> fst e \<noteq> x \<and> has_minimal_trailing_zeros s (fst e) (snd e))"
proof (cases "fst e = x \<or> \<not> has_minimal_trailing_zeros s (fst e) (snd e)")
  case True
  then show ?thesis by (simp add: select_pivot_step_skip)
next
  case False
  then show ?thesis
    unfolding select_pivot_step_def Let_def
    by (simp split: if_splits)
qed

lemma select_pivot_fold_result:
  "(result (fold (select_pivot_step E s x new_value row_value a) es st) = result st
      \<and> out_b (fold (select_pivot_step E s x new_value row_value a) es st) = out_b st)
   \<or> (\<exists>e \<in> set es.
        result (fold (select_pivot_step E s x new_value row_value a) es st) = fst e
      \<and> out_b (fold (select_pivot_step E s x new_value row_value a) es st) = snd e
      \<and> fst e \<noteq> x \<and> has_minimal_trailing_zeros s (fst e) (snd e))"
proof (induction es arbitrary: st)
  case Nil
  then show ?case by simp
next
  case (Cons e es)
  define st1 where "st1 = select_pivot_step E s x new_value row_value a e st"
  define fin where "fin = fold (select_pivot_step E s x new_value row_value a) es st1"
  have f: "fold (select_pivot_step E s x new_value row_value a) (e # es) st = fin"
    by (simp add: fin_def st1_def)
  have ih: "(result fin = result st1 \<and> out_b fin = out_b st1)
      \<or> (\<exists>e' \<in> set es. result fin = fst e' \<and> out_b fin = snd e' \<and> fst e' \<noteq> x
            \<and> has_minimal_trailing_zeros s (fst e') (snd e'))"
    unfolding fin_def by (rule Cons.IH)
  have st: "(result st1 = result st \<and> out_b st1 = out_b st)
      \<or> (result st1 = fst e \<and> out_b st1 = snd e \<and> fst e \<noteq> x
            \<and> has_minimal_trailing_zeros s (fst e) (snd e))"
    unfolding st1_def by (rule select_pivot_step_result)
  from ih st show ?case unfolding f by auto
qed

lemma select_pivot_fold_skip:
  "\<forall>e \<in> set es. fst e = x \<or> \<not> has_minimal_trailing_zeros s (fst e) (snd e) \<Longrightarrow>
   fold (select_pivot_step E s x new_value row_value a) es st = st"
  by (induction es) (simp_all add: select_pivot_step_skip)

lemma select_pivot_core_Some:
  assumes "select_pivot_core E s x delta new_value = Inr (Some (y, b), s')"
  shows "(y, b) \<in> set (M_row_entries (M s) (m_base2row (m_vars s ! x))) \<and> y \<noteq> x
     \<and> has_minimal_trailing_zeros s y b"
proof -
  let ?r = "m_base2row (m_vars s ! x)"
  let ?init = "\<lparr>result = get_num_vars s, out_b = 0, n_ties = 0, best_col_sz = UINT_MAX,
                   best_so_far = INT_MAX, best_in_bounds = False,
                   delta_y = delta_y_init E, rnd = m_random s\<rparr> :: 'a word pivot_search"
  let ?st = "fold (select_pivot_step E s x new_value (m_row_value (m_rows s ! ?r))
                         (m_base_coeff (m_rows s ! ?r))) (M_row_entries (M s) ?r) ?init"
  from assms have lt: "result ?st < get_num_vars s" and y: "result ?st = y" and b: "out_b ?st = b"
    by (auto simp: select_pivot_core_def Let_def split: if_splits)
  from lt have "result ?st \<noteq> result ?init" by simp
  with select_pivot_fold_result [of E s x new_value "m_row_value (m_rows s ! ?r)"
      "m_base_coeff (m_rows s ! ?r)" "M_row_entries (M s) ?r" ?init]
  obtain e where "e \<in> set (M_row_entries (M s) ?r)" "result ?st = fst e" "out_b ?st = snd e"
    "fst e \<noteq> x" "has_minimal_trailing_zeros s (fst e) (snd e)"
    by blast
  with y b show ?thesis by (metis prod.collapse)
qed

lemma select_pivot_core_None:
  assumes "is_base s x"
    and "\<forall>e \<in> set (M_row_entries (M s) (m_base2row (m_vars s ! x))).
           fst e = x \<or> \<not> has_minimal_trailing_zeros s (fst e) (snd e)"
  shows "select_pivot_core E s x delta new_value = Inr (None, s)"
  using assms(1) select_pivot_fold_skip [OF assms(2)]
  by (simp add: select_pivot_core_def Let_def)

text \<open>
  C6. \<^verbatim>\<open>has_minimal_trailing_zeros y b\<close> holds exactly if the trailing-zero count of
  \<open>b\<close> is at most that of every coefficient of \<open>y\<close> in the rows where \<open>y\<close> appears. A
  partner returned by \<^verbatim>\<open>select_pivot_core\<close> is an entry of the row of \<open>x\<close>, differs from
  \<open>x\<close> and passes this gate; when no entry of the row passes it, the answer is none, and
  \<^verbatim>\<open>make_var_feasible\<close> goes on to the infeasibility proof of the row.
\<close>

theorem pivot_eligibility:
  "has_minimal_trailing_zeros s y b =
     (\<forall>col \<in> set (M_col_entries (M s) y). trailing_zeros b \<le> trailing_zeros (snd col))
   \<and> (select_pivot_core E s x delta new_value = Inr (Some (y, b), s') \<longrightarrow>
        (y, b) \<in> set (M_row_entries (M s) (m_base2row (m_vars s ! x))) \<and> y \<noteq> x
        \<and> has_minimal_trailing_zeros s y b)
   \<and> (is_base s x
        \<and> (\<forall>e \<in> set (M_row_entries (M s) (m_base2row (m_vars s ! x))).
              fst e = x \<or> \<not> has_minimal_trailing_zeros s (fst e) (snd e))
       \<longrightarrow> select_pivot_core E s x delta new_value = Inr (None, s))
   \<and> (\<not> in_bounds_var s x
        \<and> select_pivot_core E s x (snd (new_value_delta (lo s x) (hi s x) (value_of s x)))
             (fst (new_value_delta (lo s x) (hi s x) (value_of s x))) = Inr (None, s')
       \<longrightarrow> make_var_feasible E s x =
            (case is_infeasible_row E s' x of
               Inl err \<Rightarrow> Inl err
             | Inr infeasible \<Rightarrow> Inr (if infeasible then l_false else l_undef, s')))"
  using has_minimal_trailing_zeros_iff [of s y b]
    select_pivot_core_Some [of E s x delta new_value y b s']
    select_pivot_core_None [of s x E delta new_value]
  by (simp add: make_var_feasible_def Let_def)

theorem pivot_eligibility_witness:
  "has_minimal_trailing_zeros tableau_near 1 1
   \<and> \<not> has_minimal_trailing_zeros tableau_gate 1 2
   \<and> select_pivot_core ext_neg tableau_near 0 1 2 = Inr (Some (1, 1), tableau_near)
   \<and> select_pivot_core ext_neg tableau_gate 0 1 1 = Inr (None, tableau_gate)
   \<and> make_var_feasible ext_neg tableau_gate 0 = Inr (l_undef, tableau_gate)"
proof -
  have 1: "\<forall>col \<in> set (M_col_entries (M tableau_near) 1).
      trailing_zeros (1 :: 4 word) \<le> trailing_zeros (snd col)" by code_simp
  have 2: "\<not> (\<forall>col \<in> set (M_col_entries (M tableau_gate) 1).
      trailing_zeros (2 :: 4 word) \<le> trailing_zeros (snd col))" by code_simp
  have 3: "select_pivot_core ext_neg tableau_near 0 1 2 = Inr (Some (1, 1), tableau_near)"
    by code_simp
  have 4: "is_base tableau_gate 0" by code_simp
  have 5: "M_row_entries (M tableau_gate) (m_base2row (m_vars tableau_gate ! 0)) = [(0, 1), (1, 2)]"
    by code_simp
  have 6: "\<not> in_bounds_var tableau_gate 0" by code_simp
  have 7: "new_value_delta (lo tableau_gate 0) (hi tableau_gate 0) (value_of tableau_gate 0) = (1, 1)"
    by code_simp
  have 8: "is_infeasible_row ext_neg tableau_gate 0 = Inr False" by code_simp
  note a = pivot_eligibility [of tableau_near 1 1 ext_neg 0 1 2 tableau_near]
  note b = pivot_eligibility [of tableau_gate 1 2 ext_neg 0 1 1 tableau_gate]
  from a 1 have c1: "has_minimal_trailing_zeros tableau_near 1 1" by blast
  from b 2 have c2: "\<not> has_minimal_trailing_zeros tableau_gate 1 2" by blast
  from b 4 5 c2 have c4: "select_pivot_core ext_neg tableau_gate 0 1 1 = Inr (None, tableau_gate)"
    by simp
  from b 6 7 c4 8 have c5: "make_var_feasible ext_neg tableau_gate 0 = Inr (l_undef, tableau_gate)"
    by simp
  from a 3 have "(1, 1) \<in> set (M_row_entries (M tableau_near) (m_base2row (m_vars tableau_near ! 0)))"
    by blast
  with c1 c2 3 c4 c5 show ?thesis by blast
qed

section \<open>Pivot execution\<close>

text \<open>
  C5, evaluated where it fails. Pivoting \<open>x\<^sub>0\<close> with \<open>x\<^sub>1\<close> (coefficient \<open>b = 1\<close>) in
  valid tableaus whose second row holds \<open>x\<^sub>1\<close> with a coefficient \<open>c\<close>,
  \<open>trailing_zeros c \<ge> trailing_zeros b\<close>: for \<open>c = 2\<close> the cascade leaves \<open>x\<^sub>1\<close> in the
  second row, whether \<^verbatim>\<open>m.inv\<close> is the additive or the modular inverse; for \<open>c = 3\<close> and
  the additive inverse \<open>x\<^sub>1\<close> is eliminated, and the cached value of the second row
  becomes 2 while its entries sum to 0, so the row invariant is lost.
\<close>

theorem pivot_cascade_defect:
  "row_invariant (tableau_cascade 2) 0 \<and> row_invariant (tableau_cascade 2) 1
   \<and> row_invariant (tableau_cascade 3) 0 \<and> row_invariant (tableau_cascade 3) 1
   \<and> (case pivot ext_neg (tableau_cascade 2) 0 1 1 0 of
         Inl err \<Rightarrow> False | Inr s' \<Rightarrow> M s' ! 1 = [(2, 1), (1, 1), (0, 15)])
   \<and> (case pivot ext_minv (tableau_cascade 2) 0 1 1 0 of
         Inl err \<Rightarrow> False | Inr s' \<Rightarrow> M s' ! 1 = [(2, 1), (1, 3), (0, 1)])
   \<and> (case pivot ext_neg (tableau_cascade 3) 0 1 1 0 of
         Inl err \<Rightarrow> False
       | Inr s' \<Rightarrow> M s' ! 1 = [(2, 1), (0, 13)] \<and> m_row_value (m_rows s' ! 1) = 2
                  \<and> nonbase_sum s' 1 = 0 \<and> \<not> row_invariant s' 1)"
  by code_simp

section \<open>Pivot without cascade\<close>

lemma add_patch_fields [simp]:
  "M (add_patch s v) = M s" "m_vars (add_patch s v) = m_vars s" "m_rows (add_patch s v) = m_rows s"
  "m_max_iterations (add_patch s v) = m_max_iterations s" "m_limit (add_patch s v) = m_limit s"
  by (simp_all add: add_patch_def to_patch_insert_def)

lemma pivot_fold_no_cascade:
  "\<forall>c \<in> set cs. fst c = rx \<Longrightarrow> fold (pivot_step E rx b ov) cs (Inr s) = Inr s"
  by (induction cs) (simp_all add: pivot_step_def)

lemma pivot_no_cascade:
  assumes "is_base s x" and "\<not> is_base s y"
    and "\<forall>c \<in> set (M_col_entries (M s) y). fst c = m_base2row (m_vars s ! x)"
  shows "pivot E s x y b new_value =
     Inr (add_patch
       (s\<lparr>m_num_pivots := m_num_pivots s + 1,
          m_rows := (m_rows s)[m_base2row (m_vars s ! x) :=
             (m_rows s ! m_base2row (m_vars s ! x))
               \<lparr>m_base := y,
                m_row_value := m_row_value (m_rows s ! m_base2row (m_vars s ! x))
                   - b * m_value (m_vars s ! y)
                   + m_base_coeff (m_rows s ! m_base2row (m_vars s ! x)) * new_value,
                m_base_coeff := b\<rparr>],
          m_vars := (m_vars s)
            [y := (m_vars s ! y)
               \<lparr>m_base2row := m_base2row (m_vars s ! x), m_is_base := True,
                m_value := 0 - ((m_row_value (m_rows s ! m_base2row (m_vars s ! x))
                   - b * m_value (m_vars s ! y)
                   + m_base_coeff (m_rows s ! m_base2row (m_vars s ! x)) * new_value) div b)\<rparr>,
             x := (m_vars s ! x)\<lparr>m_is_base := False, m_value := new_value\<rparr>]\<rparr>) y)"
  using assms by (simp add: pivot_def Let_def pivot_fold_no_cascade)

lemma pivot_round_trip_fields:
  assumes x: "x < length (m_vars s)" and y: "y < length (m_vars s)"
    and rx: "m_base2row (m_vars s ! x) < length (m_rows s)"
    and base: "m_base (m_rows s ! m_base2row (m_vars s ! x)) = x"
    and inv: "value_of s x = 0 - (m_row_value (m_rows s ! m_base2row (m_vars s ! x))
                 div m_base_coeff (m_rows s ! m_base2row (m_vars s ! x)))"
    and colx: "\<forall>c \<in> set (M_col_entries (M s) x). fst c = m_base2row (m_vars s ! x)"
    and coly: "\<forall>c \<in> set (M_col_entries (M s) y). fst c = m_base2row (m_vars s ! x)"
    and p1: "pivot E s x y b new_value = Inr s1"
    and p2: "pivot E s1 y x (m_base_coeff (m_rows s ! m_base2row (m_vars s ! x))) (value_of s y) = Inr s2"
  shows "M s2 = M s \<and> m_rows s2 = m_rows s
     \<and> m_vars s2 = (m_vars s)[y := (m_vars s ! y)\<lparr>m_base2row := m_base2row (m_vars s ! x)\<rparr>]"
proof -
  define r where "r = m_base2row (m_vars s ! x)"
  define a where "a = m_base_coeff (m_rows s ! r)"
  define v1 where "v1 = m_row_value (m_rows s ! r) - b * m_value (m_vars s ! y) + a * new_value"
  from p1 have basx: "is_base s x" and nbasy: "\<not> is_base s y"
    by (auto simp: pivot_def split: if_splits)
  then have ne: "x \<noteq> y" by auto
  have s1: "s1 = add_patch
       (s\<lparr>m_num_pivots := m_num_pivots s + 1,
          m_rows := (m_rows s)[r := (m_rows s ! r)\<lparr>m_base := y, m_row_value := v1, m_base_coeff := b\<rparr>],
          m_vars := (m_vars s)
            [y := (m_vars s ! y)\<lparr>m_base2row := r, m_is_base := True, m_value := 0 - (v1 div b)\<rparr>,
             x := (m_vars s ! x)\<lparr>m_is_base := False, m_value := new_value\<rparr>]\<rparr>) y"
    using p1 pivot_no_cascade [OF basx nbasy coly, of E b new_value]
    by (simp add: r_def a_def v1_def)
  have M1: "M s1 = M s" by (simp add: s1)
  have vy: "m_vars s1 ! y = (m_vars s ! y)\<lparr>m_base2row := r, m_is_base := True, m_value := 0 - (v1 div b)\<rparr>"
    using x y ne by (simp add: s1)
  have vx: "m_vars s1 ! x = (m_vars s ! x)\<lparr>m_is_base := False, m_value := new_value\<rparr>"
    using x y ne by (simp add: s1)
  have rr: "m_rows s1 ! r = (m_rows s ! r)\<lparr>m_base := y, m_row_value := v1, m_base_coeff := b\<rparr>"
    using rx by (simp add: s1 r_def)
  have basy1: "is_base s1 y" and nbasx1: "\<not> is_base s1 x"
    by (simp_all add: is_base_def vy vx)
  have colx1: "\<forall>c \<in> set (M_col_entries (M s1) x). fst c = m_base2row (m_vars s1 ! y)"
    using colx by (simp add: M1 vy r_def)
  have v2: "v1 - a * new_value + b * value_of s y = m_row_value (m_rows s ! r)"
    by (simp add: v1_def value_of_def)
  have xv: "- (m_row_value (m_rows s ! r) div a) = m_value (m_vars s ! x)"
    using inv by (simp add: value_of_def r_def a_def)
  have xrec: "(m_vars s ! x)\<lparr>m_base2row := r, m_is_base := True\<rparr> = m_vars s ! x"
    using basx by (simp add: is_base_def r_def)
  have rrec: "(m_rows s ! r)\<lparr>m_base := x, m_base_coeff := a\<rparr> = m_rows s ! r"
    using base by (simp add: r_def a_def)
  from p2 pivot_no_cascade [OF basy1 nbasx1 colx1, of E a "value_of s y"]
  have s2: "s2 = add_patch
       (s1\<lparr>m_num_pivots := m_num_pivots s1 + 1,
          m_rows := (m_rows s1)[r := (m_rows s1 ! r)\<lparr>m_base := x, m_row_value := m_row_value (m_rows s ! r), m_base_coeff := a\<rparr>],
          m_vars := (m_vars s1)
            [x := (m_vars s1 ! x)\<lparr>m_base2row := r, m_is_base := True, m_value := m_value (m_vars s ! x)\<rparr>,
             y := (m_vars s1 ! y)\<lparr>m_is_base := False, m_value := value_of s y\<rparr>]\<rparr>) x"
    by (simp add: a_def [symmetric] r_def [symmetric] vy vx rr v2 xv)
  have "M s2 = M s" by (simp add: s2 M1)
  moreover have "m_rows s2 = m_rows s"
    using rx by (simp add: s2 s1 r_def [symmetric] rrec)
  moreover have "m_vars s2 = (m_vars s)[y := (m_vars s ! y)\<lparr>m_base2row := r\<rparr>]"
  proof -
    from nbasy have "m_is_base (m_vars s ! y) = False" by (simp add: is_base_def)
    then have "(m_vars s ! y)\<lparr>m_is_base := False\<rparr>
        = (m_vars s ! y)\<lparr>m_is_base := m_is_base (m_vars s ! y)\<rparr>" by (simp only:)
    then have yrec: "(m_vars s ! y)\<lparr>m_is_base := False\<rparr> = m_vars s ! y" by simp
    then have yrec': "(m_vars s ! y)\<lparr>m_base2row := r, m_is_base := False\<rparr>
        = (m_vars s ! y)\<lparr>m_base2row := r\<rparr>"
      by (metis var_info.update_convs(4) var_info.update_convs(5) var_info.surjective)
    show ?thesis
    proof (rule nth_equalityI)
      show "length (m_vars s2) = length ((m_vars s)[y := (m_vars s ! y)\<lparr>m_base2row := r\<rparr>])"
        by (simp add: s2 s1)
    next
      fix i assume "i < length (m_vars s2)"
      then have i: "i < length (m_vars s)" by (simp add: s2 s1)
      show "m_vars s2 ! i = (m_vars s)[y := (m_vars s ! y)\<lparr>m_base2row := r\<rparr>] ! i"
        using i x y ne
        by (simp add: s2 vx vy xrec yrec' nth_list_update) (simp add: s1 nth_list_update value_of_def)
    qed
  qed
  ultimately show ?thesis by (simp add: r_def)
qed

section \<open>Feasibility loop\<close>

lemma pivot_step_Inl [simp]: "pivot_step E rx b ov col (Inl err) = Inl err"
  by (simp add: pivot_step_def)

lemma fold_pivot_step_Inl [simp]: "fold (pivot_step E rx b ov) cs (Inl err) = Inl err"
  by (induction cs) simp_all

lemma fold_pivot_step_preserves:
  assumes step: "\<And>col s s'. P s \<Longrightarrow> pivot_step E rx b ov col (Inr s) = Inr s' \<Longrightarrow> P s'"
    and "fold (pivot_step E rx b ov) cs (Inr s) = Inr s'" and "P s"
  shows "P s'"
  using assms(2,3)
proof (induction cs arbitrary: s)
  case Nil
  then show ?case by simp
next
  case (Cons c cs)
  show ?case
  proof (cases "pivot_step E rx b ov c (Inr s)")
    case (Inl err)
    with Cons.prems show ?thesis by simp
  next
    case (Inr s1)
    with Cons.prems step [of s c s1] have "P s1" by simp
    moreover from Cons.prems Inr have "fold (pivot_step E rx b ov) cs (Inr s1) = Inr s'" by simp
    ultimately show ?thesis by (rule Cons.IH [rotated])
  qed
qed

lemma pivot_step_frame:
  "pivot_step E rx b ov col (Inr s) = Inr s' \<Longrightarrow>
   m_max_iterations s' = m_max_iterations s \<and> m_limit s' = m_limit s"
  by (auto simp: pivot_step_def Let_def split: if_splits)

lemma pivot_frame:
  assumes "pivot E s x y b new_value = Inr s'"
  shows "m_max_iterations s' = m_max_iterations s \<and> m_limit s' = m_limit s"
proof -
  let ?P = "\<lambda>t. m_max_iterations t = m_max_iterations s \<and> m_limit t = m_limit s"
  from assms obtain s2 cs rx ov where
    f: "fold (pivot_step E rx b ov) cs (Inr s2) = Inr s'" and s2: "?P s2"
    by (auto simp: pivot_def Let_def split: if_splits)
  show ?thesis
    by (rule fold_pivot_step_preserves [where P = ?P, OF _ f s2]) (auto dest: pivot_step_frame)
qed

lemma select_pivot_core_frame:
  "select_pivot_core E s x delta new_value = Inr (r, s') \<Longrightarrow>
   m_max_iterations s' = m_max_iterations s \<and> m_limit s' = m_limit s"
  by (auto simp: select_pivot_core_def Let_def split: if_splits)

lemma make_var_feasible_frame:
  assumes "make_var_feasible E s x = Inr (r, s')"
  shows "m_max_iterations s' = m_max_iterations s \<and> m_limit s' = m_limit s"
proof (cases "in_bounds_var s x")
  case True
  with assms show ?thesis by (simp add: make_var_feasible_def)
next
  case False
  let ?nv = "fst (new_value_delta (lo s x) (hi s x) (value_of s x))"
  let ?d = "snd (new_value_delta (lo s x) (hi s x) (value_of s x))"
  from assms False obtain p s1 where sp: "select_pivot_core E s x ?d ?nv = Inr (p, s1)"
    by (auto simp: make_var_feasible_def Let_def split: sum.splits)
  note f1 = select_pivot_core_frame [OF sp]
  show ?thesis
  proof (cases p)
    case None
    with assms False sp have "s' = s1"
      by (auto simp: make_var_feasible_def Let_def split: sum.splits)
    with f1 show ?thesis by simp
  next
    case (Some yb)
    with assms False sp have "pivot E s1 x (fst yb) (snd yb) ?nv = Inr s'"
      by (auto simp: make_var_feasible_def Let_def split: sum.splits)
    from pivot_frame [OF this] f1 show ?thesis by simp
  qed
qed

lemma select_var_to_fix_frame [simp]:
  "m_max_iterations (snd (select_var_to_fix s)) = m_max_iterations s"
  "m_limit (snd (select_var_to_fix s)) = m_limit s"
  by (simp_all add: select_var_to_fix_def Let_def split: list.splits)

lemma limit_inc_frame [simp]:
  "m_max_iterations (snd (limit_inc E s)) = m_max_iterations s"
  "m_limit (snd (limit_inc E s)) = Suc (m_limit s)"
  by (simp_all add: limit_inc_def)

lemma check_blands_rule_frame [simp]:
  "m_max_iterations (fst (check_blands_rule s v n)) = m_max_iterations s"
  "m_limit (fst (check_blands_rule s v n)) = m_limit s"
  by (simp_all add: check_blands_rule_def Let_def)

lemma to_patch_insert_frame [simp]:
  "m_max_iterations (to_patch_insert s v) = m_max_iterations s"
  "m_limit (to_patch_insert s v) = m_limit s"
  by (simp_all add: to_patch_insert_def)

lemma make_feasible_loop_returns:
  assumes "m_max_iterations s \<noteq> - 1" and "unat n \<le> unat (m_max_iterations s) + 1"
  shows "\<exists>res. make_feasible_loop E s n nr = Some res
     \<and> (\<forall>r s'. res = Inr (r, s') \<longrightarrow>
           m_limit s' + unat n \<le> m_limit s + unat (m_max_iterations s) + 2)"
  using assms
proof (induction "unat (m_max_iterations s) + 1 - unat n" arbitrary: s n nr rule: less_induct)
  case less
  let ?mx = "m_max_iterations s"
  show ?case
  proof (cases "fst (select_var_to_fix s)")
    case None
    with less.prems show ?thesis
      by (subst make_feasible_loop.simps) simp
  next
    case (Some v)
    let ?s1 = "snd (select_var_to_fix s)"
    let ?s2 = "snd (limit_inc E ?s1)"
    show ?thesis
    proof (cases "\<not> fst (limit_inc E ?s1) \<or> n > m_max_iterations ?s2")
      case True
      with Some less.prems show ?thesis
        by (subst make_feasible_loop.simps) (auto simp: Let_def)
    next
      case False
      then have ok: "fst (limit_inc E ?s1)" and le: "n \<le> ?mx" by (simp_all add: not_less)
      let ?s3 = "fst (check_blands_rule ?s2 v nr)"
      let ?nr' = "snd (check_blands_rule ?s2 v nr)"
      from le have len: "unat n \<le> unat ?mx" by (simp add: word_le_nat_alt)
      from less.prems(1) have "unat ?mx \<noteq> unat (- 1 :: 32 word)"
        by (simp add: word_unat_eq_iff)
      moreover have "unat (- 1 :: 32 word) = 2 ^ 32 - 1"
        by (simp add: unsigned_minus_1_eq_mask mask_eq_exp_minus_1)
      moreover have "unat ?mx < 2 ^ 32"
        using unsigned_less [of ?mx, where 'a = nat] by simp
      ultimately have "unat ?mx < 2 ^ 32 - 1" by linarith
      with len have n1: "unat (n + 1) = unat n + 1"
        by (simp add: unat_word_ariths)
      show ?thesis
      proof (cases "make_var_feasible E ?s3 v")
        case (Inl err)
        with Some False show ?thesis
          by (subst make_feasible_loop.simps) (simp add: Let_def)
      next
        case (Inr res)
        then have mvf: "make_var_feasible E ?s3 v = Inr (fst res, snd res)" by simp
        note fr = make_var_feasible_frame [OF mvf]
        show ?thesis
        proof (cases "fst res")
          case l_false
          with Some False Inr fr len show ?thesis
            by (subst make_feasible_loop.simps) (simp add: Let_def)
        next
          case l_undef
          with Some False Inr fr len show ?thesis
            by (subst make_feasible_loop.simps) (simp add: Let_def)
        next
          case l_true
          have eq: "make_feasible_loop E s n nr = make_feasible_loop E (snd res) (n + 1) ?nr'"
            using Some False Inr l_true
            by (subst make_feasible_loop.simps) (simp add: Let_def)
          have m: "m_max_iterations (snd res) = ?mx" and l: "m_limit (snd res) = Suc (m_limit s)"
            using fr by simp_all
          have "\<exists>res'. make_feasible_loop E (snd res) (n + 1) ?nr' = Some res'
              \<and> (\<forall>r s'. res' = Inr (r, s') \<longrightarrow>
                 m_limit s' + unat (n + 1) \<le> m_limit (snd res) + unat (m_max_iterations (snd res)) + 2)"
          proof (rule less.hyps)
            show "unat (m_max_iterations (snd res)) + 1 - unat (n + 1) < unat ?mx + 1 - unat n"
              using len n1 m by simp
            show "m_max_iterations (snd res) \<noteq> - 1" using m less.prems(1) by simp
            show "unat (n + 1) \<le> unat (m_max_iterations (snd res)) + 1" using len n1 m by simp
          qed
          then show ?thesis unfolding eq using m l n1 by auto
        qed
      qed
    qed
  qed
qed

lemma tz1: "trailing_zeros (1 :: 4 word) = 0" by code_simp

lemma A1: "M s = [[(0, 1), (1, 1)]] \<Longrightarrow> m_vars s = [mk_var 1 2 15 True 0, mk_var 1 2 (1 :: 4 word) False 0]
     \<Longrightarrow> m_rows s = [mk_row_info 0 1 1] \<Longrightarrow> \<not> in_bounds_var s 0"
  by (simp add: in_bounds_var_def value_of_def lo_def hi_def mk_var_def in_bounds_def)

lemma A2: "M s = [[(0, 1), (1, 1)]] \<Longrightarrow> m_vars s = [mk_var 1 2 15 True 0, mk_var 1 2 (1 :: 4 word) False 0]
     \<Longrightarrow> m_rows s = [mk_row_info 0 1 1] \<Longrightarrow>
   new_value_delta (lo s 0) (hi s 0) (value_of s 0) = (1, 2)"
  by (simp add: value_of_def lo_def hi_def mk_var_def new_value_delta_def)


lemma A3:
  assumes "M s = [[(0, 1), (1, 1)]]"
    and "m_vars s = [mk_var 1 2 15 True 0, mk_var 1 2 (1 :: 4 word) False 0]"
    and "m_rows s = [mk_row_info 0 1 1]"
  shows "select_pivot_core ext_neg s 0 2 1 = Inr (Some (1, 1), s\<lparr>m_random := m_random s\<rparr>)"
proof -
  have "select_pivot_step ext_neg s 0 1 1 1 (0, 1) st = st" for st
    by (simp add: select_pivot_step_def)
  moreover have "best_so_far st = INT_MAX \<Longrightarrow>
      result (select_pivot_step ext_neg s 0 1 1 1 (1, 1) st) = 1
      \<and> out_b (select_pivot_step ext_neg s 0 1 1 1 (1, 1) st) = 1
      \<and> rnd (select_pivot_step ext_neg s 0 1 1 1 (1, 1) st) = rnd st" for st
    using assms
    apply (simp add: select_pivot_step_def has_minimal_trailing_zeros_def tz1)
    apply (simp add: Let_def value_of_def lo_def hi_def mk_var_def mk_row_info_def in_bounds_def)
    done
  ultimately show ?thesis
    using assms
    by (simp add: select_pivot_core_def is_base_def mk_var_def mk_row_info_def get_num_vars_def
        M_row_entries_def Let_def)
qed

lemma A4:
  assumes "M s = [[(0, 1), (1, 1)]]"
    and "m_vars s = [mk_var 1 2 15 True 0, mk_var 1 2 (1 :: 4 word) False 0]"
    and "m_rows s = [mk_row_info 0 1 1]"
    and "m_to_patch s = []"
  shows "pivot ext_neg s 0 1 1 1 =
     Inr (s\<lparr>m_num_pivots := m_num_pivots s + 1, m_rows := [mk_row_info 1 1 1],
            m_vars := [mk_var 1 2 1 False 0, mk_var 1 2 15 True 0], m_to_patch := [1]\<rparr>)"
  using assms
  apply (simp add: pivot_def is_base_def mk_var_def mk_row_info_def Let_def)
  apply (simp add: add_patch_def in_bounds_var_def in_bounds_def value_of_def lo_def hi_def
      to_patch_insert_def M_col_entries_def pivot_step_def)
  done


lemma B3:
  assumes "M s = [[(0, 1), (1, 1)]]"
    and "m_vars s = [mk_var 1 2 1 False 0, mk_var 1 2 (15 :: 4 word) True 0]"
    and "m_rows s = [mk_row_info 1 1 1]"
  shows "select_pivot_core ext_neg s 1 2 1 = Inr (Some (0, 1), s\<lparr>m_random := m_random s\<rparr>)"
proof -
  have "select_pivot_step ext_neg s 1 1 1 1 (1, 1) st = st" for st
    by (simp add: select_pivot_step_def)
  moreover have "best_so_far st = INT_MAX \<Longrightarrow>
      result (select_pivot_step ext_neg s 1 1 1 1 (0, 1) st) = 0
      \<and> out_b (select_pivot_step ext_neg s 1 1 1 1 (0, 1) st) = 1
      \<and> rnd (select_pivot_step ext_neg s 1 1 1 1 (0, 1) st) = rnd st" for st
    using assms
    apply (simp add: select_pivot_step_def has_minimal_trailing_zeros_def tz1)
    apply (simp add: Let_def value_of_def lo_def hi_def mk_var_def mk_row_info_def in_bounds_def)
    done
  ultimately show ?thesis
    using assms
    by (simp add: select_pivot_core_def is_base_def mk_var_def mk_row_info_def get_num_vars_def
        M_row_entries_def Let_def)
qed

lemma B4:
  assumes "M s = [[(0, 1), (1, 1)]]"
    and "m_vars s = [mk_var 1 2 1 False 0, mk_var 1 2 (15 :: 4 word) True 0]"
    and "m_rows s = [mk_row_info 1 1 1]"
    and "m_to_patch s = []"
  shows "pivot ext_neg s 1 0 1 1 =
     Inr (s\<lparr>m_num_pivots := m_num_pivots s + 1, m_rows := [mk_row_info 0 1 1],
            m_vars := [mk_var 1 2 15 True 0, mk_var 1 2 1 False 0], m_to_patch := [0]\<rparr>)"
  using assms
  apply (simp add: pivot_def is_base_def mk_var_def mk_row_info_def Let_def)
  apply (simp add: add_patch_def in_bounds_var_def in_bounds_def value_of_def lo_def hi_def
      to_patch_insert_def M_col_entries_def pivot_step_def)
  done

lemma mvfA:
  assumes "M s = [[(0, 1), (1, 1)]]"
    and "m_vars s = [mk_var 1 2 15 True 0, mk_var 1 2 (1 :: 4 word) False 0]"
    and "m_rows s = [mk_row_info 0 1 1]"
    and "m_to_patch s = []"
  shows "make_var_feasible ext_neg s 0 =
     Inr (l_true, s\<lparr>m_random := m_random s, m_num_pivots := m_num_pivots s + 1,
            m_rows := [mk_row_info 1 1 1],
            m_vars := [mk_var 1 2 1 False 0, mk_var 1 2 15 True 0], m_to_patch := [1]\<rparr>)"
  using A1 [OF assms(1-3)] A2 [OF assms(1-3)] A3 [OF assms(1-3)]
    A4 [of "s\<lparr>m_random := m_random s\<rparr>"] assms
  by (simp add: make_var_feasible_def)

lemma mvfB:
  assumes "M s = [[(0, 1), (1, 1)]]"
    and "m_vars s = [mk_var 1 2 1 False 0, mk_var 1 2 (15 :: 4 word) True 0]"
    and "m_rows s = [mk_row_info 1 1 1]"
    and "m_to_patch s = []"
  shows "make_var_feasible ext_neg s 1 =
     Inr (l_true, s\<lparr>m_random := m_random s, m_num_pivots := m_num_pivots s + 1,
            m_rows := [mk_row_info 0 1 1],
            m_vars := [mk_var 1 2 15 True 0, mk_var 1 2 1 False 0], m_to_patch := [0]\<rparr>)"
proof -
  have 1: "\<not> in_bounds_var s 1"
    using assms by (simp add: in_bounds_var_def value_of_def lo_def hi_def mk_var_def in_bounds_def)
  have 2: "new_value_delta (lo s 1) (hi s 1) (value_of s 1) = (1, 2)"
    using assms by (simp add: value_of_def lo_def hi_def mk_var_def new_value_delta_def)
  from 1 2 B3 [OF assms(1-3)] B4 [of "s\<lparr>m_random := m_random s\<rparr>"] assms
  show ?thesis by (simp add: make_var_feasible_def)
qed

lemma check_blands_rule_fields [simp]:
  "M (fst (check_blands_rule s v n)) = M s"
  "m_vars (fst (check_blands_rule s v n)) = m_vars s"
  "m_rows (fst (check_blands_rule s v n)) = m_rows s"
  "m_to_patch (fst (check_blands_rule s v n)) = m_to_patch s"
  by (simp_all add: check_blands_rule_def Let_def)

lemma select_single: "m_to_patch s = [v] \<Longrightarrow> select_var_to_fix s = (Some v, s\<lparr>m_to_patch := []\<rparr>)"
  by (simp add: select_var_to_fix_def)

lemma cycle_never_returns:
  "make_feasible_loop E s n nr = Some y \<Longrightarrow> \<not> (E = ext_neg \<and> (cfgA s \<or> cfgB s))"
  apply (erule make_feasible_loop.raw_induct
      [where P = "\<lambda>E s n nr y. \<not> (E = ext_neg \<and> (cfgA s \<or> cfgB s))", rotated])
  subgoal premises prems for f E s n nr y
  proof
    assume h: "E = ext_neg \<and> (cfgA s \<or> cfgB s)"
    then have E: "E = ext_neg" by simp
    from h have mx: "m_max_iterations s = - 1" by (auto simp: cfgA_def cfgB_def)
    have nlt: "\<not> (- 1 :: 32 word) < n" by (simp add: word_not_simps)
    have lim: "fst (limit_inc ext_neg t)" for t :: "4 word fixplex"
      by (simp add: limit_inc_def ext_neg_def)
    from h consider "cfgA s" | "cfgB s" by blast
    then show False
    proof cases
      case 1
      then have sel: "select_var_to_fix s = (Some 0, s\<lparr>m_to_patch := []\<rparr>)"
        by (simp add: cfgA_def select_single)
      let ?s3 = "fst (check_blands_rule (snd (limit_inc ext_neg (s\<lparr>m_to_patch := []\<rparr>))) 0 nr)"
      have mvf: "make_var_feasible ext_neg ?s3 0 =
          Inr (l_true, ?s3\<lparr>m_random := m_random ?s3, m_num_pivots := m_num_pivots ?s3 + 1,
            m_rows := [mk_row_info 1 1 1],
            m_vars := [mk_var 1 2 1 False 0, mk_var 1 2 15 True 0], m_to_patch := [1]\<rparr>)"
        using 1 by (intro mvfA) (simp_all add: cfgA_def limit_inc_def)
      let ?s4 = "?s3\<lparr>m_random := m_random ?s3, m_num_pivots := m_num_pivots ?s3 + 1,
            m_rows := [mk_row_info 1 1 1],
            m_vars := [mk_var 1 2 1 False 0, mk_var 1 2 15 True 0], m_to_patch := [1]\<rparr>"
      have B: "cfgB ?s4" using 1 by (simp add: cfgA_def cfgB_def limit_inc_def)
      from prems(2) have "f ext_neg ?s4 (n + 1)
          (snd (check_blands_rule (snd (limit_inc ext_neg (s\<lparr>m_to_patch := []\<rparr>))) 0 nr)) = Some y"
        by (simp add: E sel lim mx nlt mvf Let_def)
      from prems(1) [OF this] B show False by simp
    next
      case 2
      then have sel: "select_var_to_fix s = (Some 1, s\<lparr>m_to_patch := []\<rparr>)"
        by (simp add: cfgB_def select_single)
      let ?s3 = "fst (check_blands_rule (snd (limit_inc ext_neg (s\<lparr>m_to_patch := []\<rparr>))) 1 nr)"
      have mvf: "make_var_feasible ext_neg ?s3 1 =
          Inr (l_true, ?s3\<lparr>m_random := m_random ?s3, m_num_pivots := m_num_pivots ?s3 + 1,
            m_rows := [mk_row_info 0 1 1],
            m_vars := [mk_var 1 2 15 True 0, mk_var 1 2 1 False 0], m_to_patch := [0]\<rparr>)"
        using 2 by (intro mvfB) (simp_all add: cfgB_def limit_inc_def)
      note mvf = mvf [unfolded One_nat_def]
      let ?s4 = "?s3\<lparr>m_random := m_random ?s3, m_num_pivots := m_num_pivots ?s3 + 1,
            m_rows := [mk_row_info 0 1 1],
            m_vars := [mk_var 1 2 15 True 0, mk_var 1 2 1 False 0], m_to_patch := [0]\<rparr>"
      have A: "cfgA ?s4" using 2 by (simp add: cfgA_def cfgB_def limit_inc_def)
      from prems(2) have "f ext_neg ?s4 (n + 1)
          (snd (check_blands_rule (snd (limit_inc ext_neg (s\<lparr>m_to_patch := []\<rparr>))) 1 nr)) = Some y"
        by (simp add: E sel lim mx nlt mvf Let_def)
      from prems(1) [OF this] A show False by simp
    qed
  qed
done

text \<open>
  C3, as stated, fails. With the iteration cap at \<^verbatim>\<open>UINT_MAX\<close> the test
  \<^verbatim>\<open>num_iterations > m_max_iterations\<close> never holds; on the valid one-row tableau
  \<open>tableau_cycle\<close>, whose two variables cannot both be in bounds, every pivot makes the
  other variable violate its bound, and \<^verbatim>\<open>make_feasible\<close> does not return.
\<close>

theorem make_feasible_cycles:
  "m_max_iterations tableau_cycle = - 1 \<and> row_invariant tableau_cycle 0
   \<and> row_exact tableau_cycle 0 \<and> make_feasible ext_neg tableau_cycle = None"
proof -
  have a: "m_max_iterations tableau_cycle = - 1 \<and> row_invariant tableau_cycle 0
      \<and> row_exact tableau_cycle 0"
    by code_simp
  have "cfgA (tableau_cycle\<lparr>m_num_checks := m_num_checks tableau_cycle + 1, m_left_basis := [],
          m_infeasible_var := None, m_bland := False\<rparr>)"
    by (simp add: cfgA_def tableau_cycle_def mk_fixplex_def)
  with cycle_never_returns have "make_feasible ext_neg tableau_cycle = None"
    unfolding make_feasible_def by (metis option.exhaust)
  with a show ?thesis by simp
qed

text \<open>
  C3, amended. When the iteration cap is below \<^verbatim>\<open>UINT_MAX\<close>, \<^verbatim>\<open>make_feasible\<close> returns:
  a failed assertion or exactly one of feasible, infeasible and unknown, after at most
  \<open>m_max_iterations + 2\<close> polls of the resource limit, which is polled once per
  iteration. In any iteration that has selected a variable, a resource limit that fires
  or an exceeded iteration budget makes the loop return unknown.
\<close>

theorem make_feasible_returns:
  "(m_max_iterations s \<noteq> - 1 \<longrightarrow>
      (\<exists>res. make_feasible E s = Some res
         \<and> (res = Inl Assertion_violation
              \<or> (\<exists>s'. res = Inr (l_true, s') \<or> res = Inr (l_false, s') \<or> res = Inr (l_undef, s')))
         \<and> (\<forall>r s'. res = Inr (r, s') \<longrightarrow>
               m_limit s' \<le> m_limit s + unat (m_max_iterations s) + 2)))
   \<and> (fst (select_var_to_fix t) = Some v
        \<and> (\<not> fst (limit_inc E (snd (select_var_to_fix t))) \<or> n > m_max_iterations t)
       \<longrightarrow> make_feasible_loop E t n nr
             = Some (Inr (l_undef, snd (limit_inc E (snd (select_var_to_fix t))))))"
proof (intro conjI impI)
  assume mx: "m_max_iterations s \<noteq> - 1"
  let ?s0 = "s\<lparr>m_num_checks := m_num_checks s + 1, m_left_basis := [],
          m_infeasible_var := None, m_bland := False\<rparr>"
  from mx make_feasible_loop_returns [of ?s0 0 E 0]
  obtain res where r: "make_feasible E s = Some res"
    and b: "\<forall>r s'. res = Inr (r, s') \<longrightarrow> m_limit s' \<le> m_limit s + unat (m_max_iterations s) + 2"
    unfolding make_feasible_def by auto
  have "res = Inl Assertion_violation
      \<or> (\<exists>s'. res = Inr (l_true, s') \<or> res = Inr (l_false, s') \<or> res = Inr (l_undef, s'))"
  proof (cases res)
    case (Inl e)
    then show ?thesis by (cases e) simp
  next
    case (Inr p)
    then show ?thesis by (cases p, cases "fst p") auto
  qed
  with r b show "\<exists>res. make_feasible E s = Some res
         \<and> (res = Inl Assertion_violation
              \<or> (\<exists>s'. res = Inr (l_true, s') \<or> res = Inr (l_false, s') \<or> res = Inr (l_undef, s')))
         \<and> (\<forall>r s'. res = Inr (r, s') \<longrightarrow>
               m_limit s' \<le> m_limit s + unat (m_max_iterations s) + 2)"
    by blast
next
  assume "fst (select_var_to_fix t) = Some v
        \<and> (\<not> fst (limit_inc E (snd (select_var_to_fix t))) \<or> n > m_max_iterations t)"
  then show "make_feasible_loop E t n nr
             = Some (Inr (l_undef, snd (limit_inc E (snd (select_var_to_fix t)))))"
    by (subst make_feasible_loop.simps) (auto simp: Let_def)
qed

theorem make_feasible_returns_witness:
  "make_feasible ext_neg tableau_infeasible \<noteq> None
   \<and> make_feasible_loop ext_cancel tableau_infeasible 0 0
       = Some (Inr (l_undef, tableau_infeasible\<lparr>m_to_patch := [], m_limit := 1\<rparr>))"
proof -
  have 1: "m_max_iterations tableau_infeasible \<noteq> - 1" by code_simp
  have 2: "fst (select_var_to_fix tableau_infeasible) = Some 0" by code_simp
  have 3: "\<not> fst (limit_inc ext_cancel (snd (select_var_to_fix tableau_infeasible)))"
    by code_simp
  have 4: "snd (limit_inc ext_cancel (snd (select_var_to_fix tableau_infeasible)))
      = tableau_infeasible\<lparr>m_to_patch := [], m_limit := 1\<rparr>"
    by code_simp
  from make_feasible_returns [where s = tableau_infeasible and E = ext_neg, THEN conjunct1,
      THEN mp, OF 1]
  have a: "make_feasible ext_neg tableau_infeasible \<noteq> None"
    by auto
  from 2 3 have "fst (select_var_to_fix tableau_infeasible) = Some 0
        \<and> (\<not> fst (limit_inc ext_cancel (snd (select_var_to_fix tableau_infeasible)))
            \<or> 0 > m_max_iterations tableau_infeasible)"
    by simp
  from make_feasible_returns [where t = tableau_infeasible and E = ext_cancel and v = 0
      and n = 0 and nr = 0, THEN conjunct2, THEN mp, OF this]
  have "make_feasible_loop ext_cancel tableau_infeasible 0 0
       = Some (Inr (l_undef, snd (limit_inc ext_cancel (snd (select_var_to_fix tableau_infeasible)))))" .
  with a 4 show ?thesis by simp
qed

section \<open>Ownership of the rows\<close>

lemma frame_refl [simp]: "frame s s"
  by (simp add: frame_def)

lemma frame_trans: "frame s t \<Longrightarrow> frame t u \<Longrightarrow> frame s u"
  unfolding frame_def by (intro conjI ballI allI impI) (simp_all, metis)

lemma frame_invariant:
  assumes "frame s s'" and "wf_tableau s" and "basis_invariant s"
  shows "wf_tableau s' \<and> basis_invariant s'"
proof
  from assms show "wf_tableau s'"
    unfolding frame_def wf_tableau_def basis_invariant_def by (simp, metis)
  from assms(1,3) show "basis_invariant s'"
    unfolding frame_def basis_invariant_def is_base_def by simp
qed

lemma frame_to_patch_insert:
  "v \<in> set (m_to_patch s) \<or> (\<exists>r < length (m_rows s). v = m_base (m_rows s ! r)) \<Longrightarrow>
   frame s (to_patch_insert s v)"
  by (auto simp: frame_def to_patch_insert_def)

lemma frame_add_patch:
  "\<exists>r < length (m_rows s). v = m_base (m_rows s ! r) \<Longrightarrow> frame s (add_patch s v)"
  by (simp add: add_patch_def frame_to_patch_insert)

lemma M_col_entries_bound: "c \<in> set (M_col_entries A v) \<Longrightarrow> fst c < length A"
  by (auto simp: M_col_entries_def)

lemma nth_update_m_value [simp]:
  "m_is_base (vs[i := (vs ! i)\<lparr>m_value := w\<rparr>] ! v) = m_is_base (vs ! v)"
  "m_base2row (vs[i := (vs ! i)\<lparr>m_value := w\<rparr>] ! v) = m_base2row (vs ! v)"
  "m_lo (vs[i := (vs ! i)\<lparr>m_value := w\<rparr>] ! v) = m_lo (vs ! v)"
  "m_hi (vs[i := (vs ! i)\<lparr>m_value := w\<rparr>] ! v) = m_hi (vs ! v)"
  by (cases "i < length vs"; cases "i = v"; simp add: list_update_beyond)+

lemma nth_update_m_row_value [simp]:
  "m_base (rs[i := (rs ! i)\<lparr>m_row_value := w\<rparr>] ! r) = m_base (rs ! r)"
  "m_base (rs[i := (rs ! i)\<lparr>m_row_value := w, m_base_coeff := c\<rparr>] ! r) = m_base (rs ! r)"
  by (cases "i < length rs"; cases "i = r"; simp add: list_update_beyond)+





lemma fold_pivot_step_invariant:
  assumes step: "\<And>col s s'. col \<in> set cs \<Longrightarrow> P s \<Longrightarrow> pivot_step E rx b ov col (Inr s) = Inr s' \<Longrightarrow> P s'"
    and "fold (pivot_step E rx b ov) cs (Inr s) = Inr s'" and "P s"
  shows "P s'"
  using assms
proof (induction cs arbitrary: s)
  case Nil
  then show ?case by simp
next
  case (Cons c cs)
  show ?case
  proof (cases "pivot_step E rx b ov c (Inr s)")
    case (Inl err)
    with Cons.prems(2) show ?thesis by simp
  next
    case (Inr s1)
    with Cons.prems(1) [of c s s1] Cons.prems(3) have "P s1" by simp
    moreover from Cons.prems(2) Inr have "fold (pivot_step E rx b ov) cs (Inr s1) = Inr s'" by simp
    ultimately show ?thesis using Cons.prems(1) by (intro Cons.IH [of s1]) auto
  qed
qed

lemma add_entry_vars: "fst ` set (add_entry es e) \<subseteq> insert (fst e) (fst ` set es)"
  by (auto simp: add_entry_def)

lemma fold_add_entry_vars:
  "fst ` set (fold (\<lambda>e es. add_entry es (fst e, n * snd e)) es2 es1) \<subseteq> fst ` set es1 \<union> fst ` set es2"
proof (induction es2 arbitrary: es1)
  case Nil
  then show ?case by simp
next
  case (Cons e es2)
  from Cons.IH [of "add_entry es1 (fst e, n * snd e)"] add_entry_vars [of es1 "(fst e, n * snd e)"]
  show ?case by auto
qed

lemma M_mul_length [simp]: "length (M_mul A r n) = length A"
  by (simp add: M_mul_def)

lemma M_add_length [simp]: "length (M_add A r1 n r2) = length A"
  by (simp add: M_add_def)

lemma M_mul_vars: "r' < length A \<Longrightarrow> fst ` set (M_mul A r n ! r') = fst ` set (A ! r')"
  by (cases "r' = r") (simp_all add: M_mul_def image_image)

lemma M_add_vars:
  assumes "r' < length A"
  shows "fst ` set (M_add A r1 n r2 ! r') \<subseteq> fst ` set (A ! r') \<union> fst ` set (A ! r2)"
proof (cases "r' = r1")
  case True
  with assms fold_add_entry_vars [of n "A ! r2" "A ! r1"] show ?thesis
    by (simp add: M_add_def)
next
  case False
  with assms show ?thesis by (simp add: M_add_def)
qed

lemma wf_tableau_matrix:
  assumes "wf_tableau s" and "length A = length (M s)"
    and "\<And>r. r < length A \<Longrightarrow> fst ` set (A ! r) \<subseteq> {v. v < length (m_vars s)}"
  shows "wf_tableau (s\<lparr>M := A\<rparr>)"
  using assms by (auto simp: wf_tableau_def)

lemma basis_invariant_matrix [simp]: "basis_invariant (s\<lparr>M := A\<rparr>) = basis_invariant s"
  by (simp add: basis_invariant_def is_base_def)

lemma wf_tableau_vars:
  "wf_tableau s \<Longrightarrow> r < length (M s) \<Longrightarrow> fst ` set (M s ! r) \<subseteq> {v. v < length (m_vars s)}"
  by (auto simp: wf_tableau_def)

lemma pivot_step_invariant:
  assumes wf: "wf_tableau s" and bi: "basis_invariant s"
    and rx: "rx < length (M s)" and col: "fst col < length (M s)"
    and st: "pivot_step E rx b ov col (Inr s) = Inr s'"
  shows "wf_tableau s' \<and> basis_invariant s' \<and> length (M s') = length (M s)"
proof (cases "fst col = rx")
  case True
  with st wf bi show ?thesis by (simp add: pivot_step_def)
next
  case False
  let ?rz = "fst col"
  let ?row_z = "m_rows s ! ?rz"
  let ?z = "m_base ?row_z"
  let ?tz1 = "trailing_zeros b"
  let ?tz2 = "trailing_zeros (snd col)"
  let ?b1 = "drop_bit ?tz1 b"
  let ?c1 = "m_inv E (drop_bit (?tz2 - ?tz1) (snd col))"
  let ?A = "M_add (M_mul (M s) ?rz ?b1) ?rz ?c1 rx"
  let ?val = "?b1 * (m_row_value ?row_z - ov) + ?c1 * m_row_value (m_rows s ! rx)"
  let ?u = "s\<lparr>M := ?A\<rparr>"
  let ?t = "?u\<lparr>m_rows := (m_rows s)[?rz := ?row_z\<lparr>m_row_value := ?val, m_base_coeff := m_base_coeff ?row_z * ?b1\<rparr>],
                 m_vars := (m_vars s)[?z := (m_vars s ! ?z)
                    \<lparr>m_value := 0 - (?val div (m_base_coeff ?row_z * ?b1))\<rparr>]\<rparr>"
  from st False have s': "s' = add_patch ?t ?z"
    by (simp add: pivot_step_def Let_def split: if_splits)
  have vars: "fst ` set (?A ! r) \<subseteq> {v. v < length (m_vars s)}" if "r < length ?A" for r
  proof -
    from that have r: "r < length (M s)" by simp
    have "fst ` set (?A ! r) \<subseteq> fst ` set (M_mul (M s) ?rz ?b1 ! r) \<union> fst ` set (M_mul (M s) ?rz ?b1 ! rx)"
      using r by (intro M_add_vars) simp
    also have "\<dots> = fst ` set (M s ! r) \<union> fst ` set (M s ! rx)"
      using r rx by (simp add: M_mul_vars)
    also have "\<dots> \<subseteq> {v. v < length (m_vars s)}"
      using wf_tableau_vars [OF wf r] wf_tableau_vars [OF wf rx] by blast
    finally show ?thesis .
  qed
  have wf0: "wf_tableau ?u" using wf vars by (intro wf_tableau_matrix) simp_all
  have bi0: "basis_invariant ?u" using bi by simp
  have rz: "?rz < length (m_rows s)" using col wf by (simp add: wf_tableau_def)
  have 1: "frame ?u ?t" by (simp add: frame_def)
  have "\<exists>r < length (m_rows ?t). ?z = m_base (m_rows ?t ! r)"
    using rz by (intro exI [of _ ?rz]) simp
  then have "frame ?t (add_patch ?t ?z)" by (rule frame_add_patch)
  with 1 have "frame ?u s'" unfolding s' by (rule frame_trans)
  from frame_invariant [OF this wf0 bi0] have "wf_tableau s' \<and> basis_invariant s'" .
  moreover have "length (M s') = length (M s)" by (simp add: s')
  ultimately show ?thesis by simp
qed

lemma to_patch_insert_fields [simp]:
  "M (to_patch_insert s v) = M s" "m_vars (to_patch_insert s v) = m_vars s"
  "m_rows (to_patch_insert s v) = m_rows s"
  by (simp_all add: to_patch_insert_def)

lemma pivot_main_invariant:
  assumes wf: "wf_tableau s" and bi: "basis_invariant s"
    and x: "x < length (m_vars s)" and y: "y < length (m_vars s)"
    and bx: "is_base s x" and nby: "\<not> is_base s y"
    and rx_def: "rx = m_base2row (m_vars s ! x)"
    and t_def: "t = s\<lparr>m_num_pivots := np,
                  m_rows := (m_rows s)[rx := (m_rows s ! rx)\<lparr>m_base := y, m_row_value := val, m_base_coeff := b\<rparr>],
                  m_vars := (m_vars s)[y := (m_vars s ! y)\<lparr>m_base2row := rx, m_is_base := True, m_value := vy\<rparr>,
                                       x := (m_vars s ! x)\<lparr>m_is_base := False, m_value := vx\<rparr>]\<rparr>"
  shows "wf_tableau t \<and> basis_invariant t \<and> rx < length (M t)"
proof -
  from bi x bx have rx: "rx < length (m_rows s)" and base: "m_base (m_rows s ! rx) = x"
    unfolding basis_invariant_def rx_def by blast+
  from bx nby have ne: "x \<noteq> y" by auto
  have wft: "wf_tableau t" using wf by (simp add: wf_tableau_def t_def)
  have row: "m_base (m_rows t ! r) = (if r = rx then y else m_base (m_rows s ! r))"
    if "r < length (m_rows s)" for r
    using that by (simp add: t_def nth_list_update)
  have isb: "is_base t v = (if v = x then False else if v = y then True else is_base s v)"
    and b2r: "v \<noteq> x \<Longrightarrow> m_base2row (m_vars t ! v) = (if v = y then rx else m_base2row (m_vars s ! v))"
    if "v < length (m_vars s)" for v
    using that ne by (simp_all add: t_def is_base_def nth_list_update)
  have len: "length (m_rows t) = length (m_rows s)" "length (m_vars t) = length (m_vars s)"
    by (simp_all add: t_def)
  have 1: "m_base (m_rows t ! r) < length (m_vars t) \<and> is_base t (m_base (m_rows t ! r))
      \<and> m_base2row (m_vars t ! m_base (m_rows t ! r)) = r" if r: "r < length (m_rows t)" for r
  proof (cases "r = rx")
    case True
    with r y ne show ?thesis by (simp add: len row isb b2r)
  next
    case False
    from r have r': "r < length (m_rows s)" by (simp add: len)
    with bi have br: "m_base (m_rows s ! r) < length (m_vars s)" "is_base s (m_base (m_rows s ! r))"
      "m_base2row (m_vars s ! m_base (m_rows s ! r)) = r"
      unfolding basis_invariant_def by blast+
    from br(3) False have "m_base (m_rows s ! r) \<noteq> x" unfolding rx_def by auto
    moreover from br(2) nby have "m_base (m_rows s ! r) \<noteq> y" by auto
    ultimately show ?thesis using False r' br by (simp add: len row isb b2r)
  qed
  have 2: "m_base2row (m_vars t ! v) < length (m_rows t)
      \<and> m_base (m_rows t ! m_base2row (m_vars t ! v)) = v"
    if v: "v < length (m_vars t)" and b: "is_base t v" for v
  proof (cases "v = y")
    case True
    with v ne rx show ?thesis by (simp add: len row b2r)
  next
    case False
    from v have v': "v < length (m_vars s)" by (simp add: len)
    from b v' False have vx: "v \<noteq> x" and bs: "is_base s v" by (auto simp: isb split: if_splits)
    from bi v' bs have r: "m_base2row (m_vars s ! v) < length (m_rows s)"
      and m: "m_base (m_rows s ! m_base2row (m_vars s ! v)) = v"
      unfolding basis_invariant_def by blast+
    from m base vx have "m_base2row (m_vars s ! v) \<noteq> rx" by auto
    with False vx v' r m show ?thesis by (simp add: len row b2r)
  qed
  from 1 2 have "basis_invariant t" unfolding basis_invariant_def by blast
  moreover from rx wf have "rx < length (M t)" by (simp add: wf_tableau_def t_def)
  ultimately show ?thesis using wft by simp
qed

lemma pivot_invariant:
  assumes wf: "wf_tableau s" and bi: "basis_invariant s"
    and x: "x < length (m_vars s)" and y: "y < length (m_vars s)"
    and p: "pivot E s x y b new_value = Inr s'"
  shows "wf_tableau s' \<and> basis_invariant s'"
proof -
  from p have bx: "is_base s x" and nby: "\<not> is_base s y"
    by (auto simp: pivot_def split: if_splits)
  define rx where "rx = m_base2row (m_vars s ! x)"
  define val where "val = m_row_value (m_rows s ! rx) - b * m_value (m_vars s ! y)
      + m_base_coeff (m_rows s ! rx) * new_value"
  define t where "t = s\<lparr>m_num_pivots := m_num_pivots s + 1,
                  m_rows := (m_rows s)[rx := (m_rows s ! rx)\<lparr>m_base := y, m_row_value := val, m_base_coeff := b\<rparr>],
                  m_vars := (m_vars s)[y := (m_vars s ! y)\<lparr>m_base2row := rx, m_is_base := True, m_value := 0 - (val div b)\<rparr>,
                                       x := (m_vars s ! x)\<lparr>m_is_base := False, m_value := new_value\<rparr>]\<rparr>"
  from pivot_main_invariant [OF wf bi x y bx nby rx_def t_def]
  have t: "wf_tableau t" "basis_invariant t" "rx < length (M t)"
    by simp_all
  from bx nby have ne: "x \<noteq> y" by auto
  have "is_base t y" using y ne by (simp add: t_def is_base_def)
  moreover have "y < length (m_vars t)" using y by (simp add: t_def)
  ultimately have "m_base2row (m_vars t ! y) < length (m_rows t)
      \<and> m_base (m_rows t ! m_base2row (m_vars t ! y)) = y"
    using t(2) unfolding basis_invariant_def by blast
  then have "\<exists>r < length (m_rows t). y = m_base (m_rows t ! r)"
    by (intro exI [of _ "m_base2row (m_vars t ! y)"]) simp
  then have f: "frame t (add_patch t y)" by (rule frame_add_patch)
  from frame_invariant [OF f t(1,2)] have u: "wf_tableau (add_patch t y)" "basis_invariant (add_patch t y)"
    by simp_all
  let ?P = "\<lambda>u. wf_tableau u \<and> basis_invariant u \<and> length (M u) = length (M t)"
  from p bx nby have fold: "fold (pivot_step E rx b (m_value (m_vars s ! y)))
      (M_col_entries (M (add_patch t y)) y) (Inr (add_patch t y)) = Inr s'"
    by (simp add: pivot_def Let_def t_def rx_def val_def)
  have "?P s'"
  proof (rule fold_pivot_step_invariant [where P = ?P, OF _ fold])
    show "?P (add_patch t y)" using u by simp
  next
    fix col u u'
    assume c: "col \<in> set (M_col_entries (M (add_patch t y)) y)" and P: "?P u"
      and st: "pivot_step E rx b (m_value (m_vars s ! y)) col (Inr u) = Inr u'"
    from c have "fst col < length (M t)" using M_col_entries_bound [of col "M t" y] by simp
    with P t(3) pivot_step_invariant [of u rx col E b "m_value (m_vars s ! y)" u'] st
    show "?P u'" by simp
  qed
  then show ?thesis by simp
qed




lemma invariant_m_random [simp]:
  "wf_tableau (s\<lparr>m_random := k\<rparr>) = wf_tableau s"
  "basis_invariant (s\<lparr>m_random := k\<rparr>) = basis_invariant s"
  by (simp_all add: wf_tableau_def basis_invariant_def is_base_def)







lemma invariant_infeasible [simp]:
  "wf_tableau (s\<lparr>m_infeasible_var := w, m_num_infeasible := k\<rparr>) = wf_tableau s"
  "basis_invariant (s\<lparr>m_infeasible_var := w, m_num_infeasible := k\<rparr>) = basis_invariant s"
  by (simp_all add: wf_tableau_def basis_invariant_def is_base_def)








text \<open>The two loops are evaluated with their defining equations.\<close>

declare gauss_jordan.simps [code]

declare make_feasible_loop.simps [code]


section \<open>Pivot round trip\<close>

lemma cascade_frame_refl [simp]: "cascade_frame r Z t t"
  by (simp add: cascade_frame_def)

lemma cascade_frame_trans:
  "cascade_frame r Z t u \<Longrightarrow> cascade_frame r Z' u w \<Longrightarrow> cascade_frame r (Z \<union> Z') t w"
  by (simp add: cascade_frame_def)

lemma cascade_frame_add_patch:
  "cascade_frame r Z t u \<Longrightarrow> cascade_frame r Z t (add_patch u z)"
  by (simp add: cascade_frame_def)

lemma pivot_step_cascade_frame:
  assumes st: "pivot_step E r b ov col (Inr u) = Inr u'"
  shows "cascade_frame r (if fst col = r then {} else {m_base (m_rows u ! fst col)}) u u'"
proof (cases "fst col = r")
  case True
  with st show ?thesis by (simp add: pivot_step_def)
next
  case False
  let ?rz = "fst col"
  let ?row_z = "m_rows u ! ?rz"
  let ?z = "m_base ?row_z"
  let ?tz1 = "trailing_zeros b"
  let ?tz2 = "trailing_zeros (snd col)"
  let ?b1 = "drop_bit ?tz1 b"
  let ?c1 = "m_inv E (drop_bit (?tz2 - ?tz1) (snd col))"
  let ?A = "M_add (M_mul (M u) ?rz ?b1) ?rz ?c1 r"
  let ?val = "?b1 * (m_row_value ?row_z - ov) + ?c1 * m_row_value (m_rows u ! r)"
  let ?w = "u\<lparr>M := ?A,
              m_rows := (m_rows u)[?rz := ?row_z\<lparr>m_row_value := ?val, m_base_coeff := m_base_coeff ?row_z * ?b1\<rparr>],
              m_vars := (m_vars u)[?z := (m_vars u ! ?z)
                    \<lparr>m_value := 0 - (?val div (m_base_coeff ?row_z * ?b1))\<rparr>]\<rparr>"
  from st False have u': "u' = add_patch ?w ?z"
    by (simp add: pivot_step_def Let_def split: if_splits)
  have "cascade_frame r {?z} u ?w"
    using False by (simp add: cascade_frame_def nth_list_update)
  then have "cascade_frame r {?z} u u'"
    unfolding u' by (rule cascade_frame_add_patch)
  with False show ?thesis by simp
qed

lemma fold_pivot_step_cascade_frame:
  assumes "\<forall>c \<in> set cs. fst c < length (m_rows t)"
    and "fold (pivot_step E r b ov) cs (Inr t) = Inr u"
  shows "cascade_frame r
      (set (map (\<lambda>rz. m_base (m_rows t ! rz)) (filter (\<lambda>rz. rz \<noteq> r) (map fst cs)))) t u"
  using assms
proof (induction cs arbitrary: t)
  case Nil
  then show ?case by simp
next
  case (Cons c cs)
  show ?case
  proof (cases "pivot_step E r b ov c (Inr t)")
    case (Inl err)
    with Cons.prems(2) show ?thesis by simp
  next
    case (Inr t1)
    note f1 = pivot_step_cascade_frame [OF Inr]
    then have len: "length (m_rows t1) = length (m_rows t)"
      and bases: "\<And>r'. r' < length (m_rows t) \<Longrightarrow> m_base (m_rows t1 ! r') = m_base (m_rows t ! r')"
      by (simp_all add: cascade_frame_def)
    from Cons.prems(1) have cs: "\<forall>c \<in> set cs. fst c < length (m_rows t1)" by (simp add: len)
    from Cons.prems(2) Inr have "fold (pivot_step E r b ov) cs (Inr t1) = Inr u" by simp
    from Cons.IH [OF cs this]
    have f2: "cascade_frame r
        (set (map (\<lambda>rz. m_base (m_rows t1 ! rz)) (filter (\<lambda>rz. rz \<noteq> r) (map fst cs)))) t1 u" .
    have eq: "map (\<lambda>rz. m_base (m_rows t1 ! rz)) (filter (\<lambda>rz. rz \<noteq> r) (map fst cs))
        = map (\<lambda>rz. m_base (m_rows t ! rz)) (filter (\<lambda>rz. rz \<noteq> r) (map fst cs))"
      using Cons.prems(1) by (intro map_cong refl bases) auto
    from cascade_frame_trans [OF f1 f2 [unfolded eq]]
    show ?thesis by (cases "fst c = r") (simp_all add: Un_commute insert_commute)
  qed
qed

lemma cascaded_bases_basic:
  assumes bi: "basis_invariant t" and len: "length (m_rows t) = length (M t)"
    and v: "v \<in> set (cascaded_bases t r w)"
  shows "v < length (m_vars t) \<and> is_base t v \<and> m_base2row (m_vars t ! v) \<noteq> r"
proof -
  from v obtain c where c: "c \<in> set (M_col_entries (M t) w)" and ne: "fst c \<noteq> r"
    and vz: "v = m_base (m_rows t ! fst c)"
    by (auto simp: cascaded_bases_def)
  from c have "fst c < length (m_rows t)" using M_col_entries_bound [of c "M t" w] len by simp
  with bi have "m_base (m_rows t ! fst c) < length (m_vars t)"
    "is_base t (m_base (m_rows t ! fst c))"
    "m_base2row (m_vars t ! m_base (m_rows t ! fst c)) = fst c"
    unfolding basis_invariant_def by blast+
  with ne vz show ?thesis by simp
qed

lemma pivot_effect:
  assumes wf: "wf_tableau s" and bi: "basis_invariant s"
    and x: "x < length (m_vars s)" and y: "y < length (m_vars s)"
    and p: "pivot E s x y b nv = Inr s'"
    and r_def: "r = m_base2row (m_vars s ! x)"
    and val_def: "val = m_row_value (m_rows s ! r) - b * m_value (m_vars s ! y)
        + m_base_coeff (m_rows s ! r) * nv"
  shows "length (m_vars s') = length (m_vars s) \<and> length (m_rows s') = length (m_rows s)
    \<and> m_vars s' ! x = (m_vars s ! x)\<lparr>m_is_base := False, m_value := nv\<rparr>
    \<and> m_vars s' ! y = (m_vars s ! y)\<lparr>m_base2row := r, m_is_base := True, m_value := 0 - (val div b)\<rparr>
    \<and> m_rows s' ! r = (m_rows s ! r)\<lparr>m_base := y, m_row_value := val, m_base_coeff := b\<rparr>
    \<and> (\<forall>v < length (m_vars s). v \<noteq> x \<longrightarrow> v \<noteq> y \<longrightarrow>
         m_is_base (m_vars s' ! v) = m_is_base (m_vars s ! v)
         \<and> m_base2row (m_vars s' ! v) = m_base2row (m_vars s ! v)
         \<and> m_lo (m_vars s' ! v) = m_lo (m_vars s ! v)
         \<and> m_hi (m_vars s' ! v) = m_hi (m_vars s ! v)
         \<and> (v \<notin> set (cascaded_bases s r y) \<longrightarrow> m_value (m_vars s' ! v) = m_value (m_vars s ! v)))
    \<and> (\<forall>r' < length (m_rows s). r' \<noteq> r \<longrightarrow> m_base (m_rows s' ! r') = m_base (m_rows s ! r'))"
proof -
  from p have bx: "is_base s x" and nby: "\<not> is_base s y"
    by (auto simp: pivot_def split: if_splits)
  then have ne: "x \<noteq> y" by auto
  define t where "t = s\<lparr>m_num_pivots := m_num_pivots s + 1,
                  m_rows := (m_rows s)[r := (m_rows s ! r)\<lparr>m_base := y, m_row_value := val, m_base_coeff := b\<rparr>],
                  m_vars := (m_vars s)[y := (m_vars s ! y)\<lparr>m_base2row := r, m_is_base := True, m_value := 0 - (val div b)\<rparr>,
                                       x := (m_vars s ! x)\<lparr>m_is_base := False, m_value := nv\<rparr>]\<rparr>"
  from pivot_main_invariant [OF wf bi x y bx nby r_def t_def]
  have t: "wf_tableau t" "basis_invariant t" "r < length (M t)"
    by simp_all
  then have rlen: "r < length (m_rows s)" by (simp add: wf_tableau_def t_def)
  define u where "u = add_patch t y"
  have Mu: "M u = M s" and vu: "m_vars u = m_vars t" and ru: "m_rows u = m_rows t"
    by (simp_all add: u_def t_def)
  have wfu: "length (m_rows u) = length (M u)" using t(1) by (simp add: wf_tableau_def Mu vu ru t_def)
  have biu: "basis_invariant u" using t(2) by (simp add: basis_invariant_def is_base_def vu ru)
  from p bx nby have fold: "fold (pivot_step E r b (m_value (m_vars s ! y)))
      (M_col_entries (M u) y) (Inr u) = Inr s'"
    by (simp add: pivot_def Let_def t_def u_def r_def val_def)
  have "\<forall>c \<in> set (M_col_entries (M u) y). fst c < length (m_rows u)"
    using M_col_entries_bound [of _ "M u" y] wfu by auto
  from fold_pivot_step_cascade_frame [OF this fold]
  have cf: "cascade_frame r (set (cascaded_bases u r y)) u s'"
    by (simp add: cascaded_bases_def)
  have cb: "cascaded_bases u r y = cascaded_bases s r y"
    unfolding cascaded_bases_def Mu ru
    by (intro map_cong refl) (simp add: t_def)
  have xz: "x \<notin> set (cascaded_bases u r y)"
  proof
    assume "x \<in> set (cascaded_bases u r y)"
    from cascaded_bases_basic [OF biu wfu this] have "is_base u x" by simp
    then show False using x ne by (simp add: is_base_def vu t_def)
  qed
  have yz: "y \<notin> set (cascaded_bases u r y)"
  proof
    assume "y \<in> set (cascaded_bases u r y)"
    from cascaded_bases_basic [OF biu wfu this] have "m_base2row (m_vars u ! y) \<noteq> r" by simp
    then show False using x y ne by (simp add: vu t_def)
  qed
  have lv: "length (m_vars u) = length (m_vars s)" and lr: "length (m_rows u) = length (m_rows s)"
    by (simp_all add: vu ru t_def)
  have fields: "m_is_base (m_vars s' ! v) = m_is_base (m_vars u ! v)
      \<and> m_base2row (m_vars s' ! v) = m_base2row (m_vars u ! v)
      \<and> m_lo (m_vars s' ! v) = m_lo (m_vars u ! v)
      \<and> m_hi (m_vars s' ! v) = m_hi (m_vars u ! v)
      \<and> (v \<notin> set (cascaded_bases u r y) \<longrightarrow> m_value (m_vars s' ! v) = m_value (m_vars u ! v))"
    if "v < length (m_vars s)" for v
    using cf that unfolding cascade_frame_def lv by blast
  have 1: "length (m_vars s') = length (m_vars s)" "length (m_rows s') = length (m_rows s)"
    using cf by (simp_all add: cascade_frame_def lv lr)
  have 2: "m_vars s' ! x = (m_vars s ! x)\<lparr>m_is_base := False, m_value := nv\<rparr>"
    using fields [OF x] xz x ne by (intro var_info.equality) (simp_all add: vu t_def)
  have 3: "m_vars s' ! y = (m_vars s ! y)\<lparr>m_base2row := r, m_is_base := True, m_value := 0 - (val div b)\<rparr>"
    using fields [OF y] yz y ne by (intro var_info.equality) (simp_all add: vu t_def)
  have 4: "m_rows s' ! r = (m_rows s ! r)\<lparr>m_base := y, m_row_value := val, m_base_coeff := b\<rparr>"
    using cf rlen by (simp add: cascade_frame_def ru t_def)
  have 5: "m_is_base (m_vars s' ! v) = m_is_base (m_vars s ! v)
         \<and> m_base2row (m_vars s' ! v) = m_base2row (m_vars s ! v)
         \<and> m_lo (m_vars s' ! v) = m_lo (m_vars s ! v)
         \<and> m_hi (m_vars s' ! v) = m_hi (m_vars s ! v)
         \<and> (v \<notin> set (cascaded_bases s r y) \<longrightarrow> m_value (m_vars s' ! v) = m_value (m_vars s ! v))"
    if "v < length (m_vars s)" "v \<noteq> x" "v \<noteq> y" for v
    using fields [OF that(1)] that by (simp add: cb vu t_def)
  have 6: "m_base (m_rows s' ! r') = m_base (m_rows s ! r')"
    if "r' < length (m_rows s)" "r' \<noteq> r" for r'
  proof -
    from cf that(1) have "m_base (m_rows s' ! r') = m_base (m_rows u ! r')"
      unfolding cascade_frame_def lr by blast
    with that show ?thesis by (simp add: ru t_def)
  qed
  from 1 2 3 4 5 6 show ?thesis by blast
qed

lemma trailing_zeros_bit:
  fixes b :: "'a::len word"
  assumes "b \<noteq> 0"
  shows "bit b (trailing_zeros b)"
proof -
  let ?xs = "[0..<LENGTH('a)]"
  let ?P = "\<lambda>i. \<not> bit b i"
  from assms obtain i where i: "bit b i" by (auto simp: bit_eq_iff)
  then have "i < LENGTH('a)" by (rule bit_imp_le_length)
  with i have "\<not> (\<forall>j \<in> set ?xs. ?P j)" by auto
  then have "takeWhile ?P ?xs \<noteq> ?xs" by (simp add: takeWhile_eq_all_conv)
  then have "length (takeWhile ?P ?xs) < length ?xs"
    by (metis length_takeWhile_le le_neq_implies_less takeWhile_dropWhile_id append_eq_conv_conj take_all_iff order_refl)
  from nth_length_takeWhile [OF this] this show ?thesis
    by (simp add: trailing_zeros_def)
qed

lemma odd_part_odd:
  fixes b :: "'a::len word"
  assumes "b \<noteq> 0"
  shows "odd (drop_bit (trailing_zeros b) b)"
  using trailing_zeros_bit [OF assms] by (simp add: bit_0 [symmetric] bit_drop_bit_eq del: bit_0)

lemma odd_mult_nonzero:
  fixes d u :: "'a::len word"
  assumes "odd u" and "d \<noteq> 0"
  shows "d * u \<noteq> 0"
proof
  assume "d * u = 0"
  then have "unat (d * u) = 0" by simp
  then have "2 ^ LENGTH('a) dvd unat d * unat u"
    by (simp add: unat_word_ariths mod_eq_0_iff_dvd)
  moreover have "odd (unat u)" using assms(1)
    by (metis even_of_nat mod_by_0 unat_mod_distrib word_arith_nat_mod)
  then have "coprime (2 ^ LENGTH('a)) (unat u)" by simp
  ultimately have "2 ^ LENGTH('a) dvd unat d" by (simp add: coprime_dvd_mult_left_iff)
  moreover have "unat d < 2 ^ LENGTH('a)" by simp
  ultimately have "unat d = 0" by (meson nat_dvd_not_less neq0_conv)
  with assms(2) show False by (simp add: unat_eq_0)
qed

lemma pivot_step_coeff_nonzero:
  assumes b: "b \<noteq> 0"
    and nz: "\<forall>r < length (m_rows u). m_base_coeff (m_rows u ! r) \<noteq> 0"
    and st: "pivot_step E rx b ov col (Inr u) = Inr u'"
  shows "length (m_rows u') = length (m_rows u)
     \<and> (\<forall>r < length (m_rows u'). m_base_coeff (m_rows u' ! r) \<noteq> 0)"
proof (cases "fst col = rx")
  case True
  with st nz show ?thesis by (simp add: pivot_step_def)
next
  case False
  let ?rz = "fst col"
  let ?row_z = "m_rows u ! ?rz"
  let ?z = "m_base ?row_z"
  let ?tz1 = "trailing_zeros b"
  let ?tz2 = "trailing_zeros (snd col)"
  let ?b1 = "drop_bit ?tz1 b"
  let ?c1 = "m_inv E (drop_bit (?tz2 - ?tz1) (snd col))"
  let ?A = "M_add (M_mul (M u) ?rz ?b1) ?rz ?c1 rx"
  let ?val = "?b1 * (m_row_value ?row_z - ov) + ?c1 * m_row_value (m_rows u ! rx)"
  let ?w = "u\<lparr>M := ?A,
              m_rows := (m_rows u)[?rz := ?row_z\<lparr>m_row_value := ?val, m_base_coeff := m_base_coeff ?row_z * ?b1\<rparr>],
              m_vars := (m_vars u)[?z := (m_vars u ! ?z)
                    \<lparr>m_value := 0 - (?val div (m_base_coeff ?row_z * ?b1))\<rparr>]\<rparr>"
  from st False have u': "u' = add_patch ?w ?z"
    by (simp add: pivot_step_def Let_def split: if_splits)
  have "m_base_coeff (m_rows u' ! r) \<noteq> 0" if r: "r < length (m_rows u)" for r
  proof (cases "r = ?rz")
    case True
    from nz r True have "m_base_coeff ?row_z \<noteq> 0" by simp
    with odd_part_odd [OF b] have "m_base_coeff ?row_z * ?b1 \<noteq> 0" by (intro odd_mult_nonzero)
    with r True show ?thesis by (simp add: u')
  next
    case False
    with nz r show ?thesis by (simp add: u')
  qed
  then show ?thesis by (simp add: u')
qed

lemma pivot_coeff_nonzero:
  assumes b: "b \<noteq> 0"
    and nz: "\<forall>r < length (m_rows s). m_base_coeff (m_rows s ! r) \<noteq> 0"
    and p: "pivot E s x y b nv = Inr s'"
  shows "length (m_rows s') = length (m_rows s)
     \<and> (\<forall>r < length (m_rows s'). m_base_coeff (m_rows s' ! r) \<noteq> 0)"
proof -
  from p have bx: "is_base s x" and nby: "\<not> is_base s y"
    by (auto simp: pivot_def split: if_splits)
  define r where "r = m_base2row (m_vars s ! x)"
  define val where "val = m_row_value (m_rows s ! r) - b * m_value (m_vars s ! y)
      + m_base_coeff (m_rows s ! r) * nv"
  define t where "t = add_patch (s\<lparr>m_num_pivots := m_num_pivots s + 1,
                  m_rows := (m_rows s)[r := (m_rows s ! r)\<lparr>m_base := y, m_row_value := val, m_base_coeff := b\<rparr>],
                  m_vars := (m_vars s)[y := (m_vars s ! y)\<lparr>m_base2row := r, m_is_base := True, m_value := 0 - (val div b)\<rparr>,
                                       x := (m_vars s ! x)\<lparr>m_is_base := False, m_value := nv\<rparr>]\<rparr>) y"
  let ?P = "\<lambda>u. length (m_rows u) = length (m_rows s)
     \<and> (\<forall>r < length (m_rows u). m_base_coeff (m_rows u ! r) \<noteq> 0)"
  from p bx nby have fold: "fold (pivot_step E r b (m_value (m_vars s ! y)))
      (M_col_entries (M t) y) (Inr t) = Inr s'"
    by (simp add: pivot_def Let_def t_def r_def val_def)
  have "?P s'"
  proof (rule fold_pivot_step_invariant [where P = ?P, OF _ fold])
    have "m_base_coeff (m_rows t ! ra) \<noteq> 0" if "ra < length (m_rows s)" for ra
      using that b nz by (cases "ra = r") (simp_all add: t_def)
    then show "?P t" by (simp add: t_def)
  next
    fix col u u'
    assume "?P u" and st: "pivot_step E r b (m_value (m_vars s ! y)) col (Inr u) = Inr u'"
    with pivot_step_coeff_nonzero [OF b _ st] show "?P u'" by simp
  qed
  then show ?thesis .
qed

lemma pivot_round_trip_restores:
  assumes wf: "wf_tableau s" and bi: "basis_invariant s"
    and x: "x < length (m_vars s)" and y: "y < length (m_vars s)"
    and inv: "value_of s x = 0 - (m_row_value (m_rows s ! m_base2row (m_vars s ! x))
                 div m_base_coeff (m_rows s ! m_base2row (m_vars s ! x)))"
    and b: "b \<noteq> 0"
    and coeff: "\<forall>r < length (m_rows s). m_base_coeff (m_rows s ! r) \<noteq> 0"
    and p1: "pivot E s x y b new_value = Inr s1"
    and p2: "pivot E s1 y x (m_base_coeff (m_rows s ! m_base2row (m_vars s ! x))) (value_of s y) = Inr s2"
  shows "(\<forall>v < length (m_vars s).
            is_base s2 v = is_base s v \<and> lo s2 v = lo s v \<and> hi s2 v = hi s v)
     \<and> (\<forall>r < length (m_rows s). m_base (m_rows s2 ! r) = m_base (m_rows s ! r))
     \<and> m_rows s2 ! m_base2row (m_vars s ! x) = m_rows s ! m_base2row (m_vars s ! x)
     \<and> (\<forall>v < length (m_vars s).
           v \<notin> set (cascaded_bases s (m_base2row (m_vars s ! x)) y)
           \<and> v \<notin> set (cascaded_bases s1 (m_base2row (m_vars s ! x)) x)
           \<longrightarrow> value_of s2 v = value_of s v)
     \<and> (cascaded_bases s (m_base2row (m_vars s ! x)) y = []
          \<and> cascaded_bases s (m_base2row (m_vars s ! x)) x = []
          \<longrightarrow> M s2 = M s \<and> m_rows s2 = m_rows s
              \<and> (\<forall>v. value_of s2 v = value_of s v \<and> is_base s2 v = is_base s v
                     \<and> lo s2 v = lo s v \<and> hi s2 v = hi s v))"
proof -
  define r where "r = m_base2row (m_vars s ! x)"
  define a where "a = m_base_coeff (m_rows s ! r)"
  define v1 where "v1 = m_row_value (m_rows s ! r) - b * m_value (m_vars s ! y) + a * new_value"
  from p1 have bx: "is_base s x" and nby: "\<not> is_base s y"
    by (auto simp: pivot_def split: if_splits)
  then have ne: "x \<noteq> y" by auto
  from bi x bx have rlen: "r < length (m_rows s)" and base: "m_base (m_rows s ! r) = x"
    unfolding basis_invariant_def r_def by blast+
  note e1 = pivot_effect [OF wf bi x y p1 r_def v1_def [unfolded a_def]]
  have l1: "length (m_vars s1) = length (m_vars s)" "length (m_rows s1) = length (m_rows s)"
    using e1 by blast+
  have x1: "m_vars s1 ! x = (m_vars s ! x)\<lparr>m_is_base := False, m_value := new_value\<rparr>"
    using e1 by blast
  have y1: "m_vars s1 ! y = (m_vars s ! y)\<lparr>m_base2row := r, m_is_base := True, m_value := 0 - (v1 div b)\<rparr>"
    using e1 by blast
  have r1: "m_rows s1 ! r = (m_rows s ! r)\<lparr>m_base := y, m_row_value := v1, m_base_coeff := b\<rparr>"
    using e1 by blast
  have o1: "m_is_base (m_vars s1 ! v) = m_is_base (m_vars s ! v)
         \<and> m_base2row (m_vars s1 ! v) = m_base2row (m_vars s ! v)
         \<and> m_lo (m_vars s1 ! v) = m_lo (m_vars s ! v)
         \<and> m_hi (m_vars s1 ! v) = m_hi (m_vars s ! v)
         \<and> (v \<notin> set (cascaded_bases s r y) \<longrightarrow> m_value (m_vars s1 ! v) = m_value (m_vars s ! v))"
    if "v < length (m_vars s)" "v \<noteq> x" "v \<noteq> y" for v
    using e1 that by blast
  have b1: "m_base (m_rows s1 ! r') = m_base (m_rows s ! r')"
    if "r' < length (m_rows s)" "r' \<noteq> r" for r'
    using e1 that by blast
  from pivot_invariant [OF wf bi x y p1] have wf1: "wf_tableau s1" and bi1: "basis_invariant s1"
    by simp_all
  have xs1: "x < length (m_vars s1)" and ys1: "y < length (m_vars s1)"
    using x y by (simp_all add: l1)
  have r2: "r = m_base2row (m_vars s1 ! y)" by (simp add: y1)
  have v2: "m_row_value (m_rows s ! r) = m_row_value (m_rows s1 ! r) - a * m_value (m_vars s1 ! x)
      + m_base_coeff (m_rows s1 ! r) * value_of s y"
    by (simp add: r1 x1 v1_def value_of_def)
  note e2 = pivot_effect [OF wf1 bi1 ys1 xs1 p2 [folded r_def, folded a_def] r2 v2]
  have x2: "m_vars s2 ! x = (m_vars s1 ! x)\<lparr>m_base2row := r, m_is_base := True,
      m_value := 0 - (m_row_value (m_rows s ! r) div a)\<rparr>"
    using e2 by blast
  have y2: "m_vars s2 ! y = (m_vars s1 ! y)\<lparr>m_is_base := False, m_value := value_of s y\<rparr>"
    using e2 by blast
  have rr2: "m_rows s2 ! r = (m_rows s1 ! r)\<lparr>m_base := x, m_row_value := m_row_value (m_rows s ! r),
      m_base_coeff := a\<rparr>"
    using e2 by blast
  have o2: "m_is_base (m_vars s2 ! v) = m_is_base (m_vars s1 ! v)
         \<and> m_base2row (m_vars s2 ! v) = m_base2row (m_vars s1 ! v)
         \<and> m_lo (m_vars s2 ! v) = m_lo (m_vars s1 ! v)
         \<and> m_hi (m_vars s2 ! v) = m_hi (m_vars s1 ! v)
         \<and> (v \<notin> set (cascaded_bases s1 r x) \<longrightarrow> m_value (m_vars s2 ! v) = m_value (m_vars s1 ! v))"
    if "v < length (m_vars s)" "v \<noteq> x" "v \<noteq> y" for v
    using e2 that unfolding l1 by blast
  have b2: "m_base (m_rows s2 ! r') = m_base (m_rows s1 ! r')"
    if "r' < length (m_rows s)" "r' \<noteq> r" for r'
    using e2 that unfolding l1 by blast
  have X: "m_vars s2 ! x = m_vars s ! x"
    using bx inv by (intro var_info.equality) (simp_all add: x2 x1 is_base_def value_of_def r_def a_def)
  have Y: "m_is_base (m_vars s2 ! y) = m_is_base (m_vars s ! y)"
      "m_lo (m_vars s2 ! y) = m_lo (m_vars s ! y)" "m_hi (m_vars s2 ! y) = m_hi (m_vars s ! y)"
      "m_value (m_vars s2 ! y) = m_value (m_vars s ! y)"
    using nby by (simp_all add: y2 y1 is_base_def value_of_def)
  have R: "m_rows s2 ! r = m_rows s ! r"
    using base by (intro row_info.equality) (simp_all add: rr2 r1 a_def)
  have A: "is_base s2 v = is_base s v \<and> lo s2 v = lo s v \<and> hi s2 v = hi s v"
    if v: "v < length (m_vars s)" for v
  proof (cases "v = x \<or> v = y")
    case True
    then show ?thesis using X Y by (auto simp: is_base_def lo_def hi_def)
  next
    case False
    with o1 [OF v] o2 [OF v] show ?thesis by (simp add: is_base_def lo_def hi_def)
  qed
  have B: "m_base (m_rows s2 ! r') = m_base (m_rows s ! r')" if r': "r' < length (m_rows s)" for r'
  proof (cases "r' = r")
    case True
    then show ?thesis by (simp add: R)
  next
    case False
    with b1 [OF r'] b2 [OF r'] show ?thesis by simp
  qed
  have C: "value_of s2 v = value_of s v"
    if v: "v < length (m_vars s)" and z1: "v \<notin> set (cascaded_bases s r y)"
      and z2: "v \<notin> set (cascaded_bases s1 r x)" for v
  proof (cases "v = x \<or> v = y")
    case True
    then show ?thesis using X Y by (auto simp: value_of_def)
  next
    case False
    with o1 [OF v] o2 [OF v] z1 z2 show ?thesis by (simp add: value_of_def)
  qed
  have D: "M s2 = M s \<and> m_rows s2 = m_rows s
      \<and> (\<forall>v. value_of s2 v = value_of s v \<and> is_base s2 v = is_base s v
              \<and> lo s2 v = lo s v \<and> hi s2 v = hi s v)"
    if cy: "cascaded_bases s r y = []" and cx: "cascaded_bases s r x = []"
  proof -
    from cy have coly: "\<forall>c \<in> set (M_col_entries (M s) y). fst c = m_base2row (m_vars s ! x)"
      by (auto simp: cascaded_bases_def filter_empty_conv r_def)
    from cx have colx: "\<forall>c \<in> set (M_col_entries (M s) x). fst c = m_base2row (m_vars s ! x)"
      by (auto simp: cascaded_bases_def filter_empty_conv r_def)
    note f = pivot_round_trip_fields [OF x y rlen [unfolded r_def] base [unfolded r_def] inv colx coly p1 p2]
    have "value_of s2 v = value_of s v \<and> is_base s2 v = is_base s v
            \<and> lo s2 v = lo s v \<and> hi s2 v = hi s v" for v
      using f y
      by (cases "v = y") (simp_all add: value_of_def is_base_def lo_def hi_def)
    with f show ?thesis by blast
  qed
  from A B R C D show ?thesis unfolding r_def by blast
qed

text \<open>
  C8, as stated, fails. In the valid tableau \<open>x\<^sub>0 + 3 x\<^sub>1 = 0\<close>, \<open>x\<^sub>2 + x\<^sub>1 + 6 x\<^sub>3 = 0\<close>
  on the 4-bit ring, with \<^verbatim>\<open>m.inv\<close> the additive inverse, \<^verbatim>\<open>pivot(x0, x1, 3, 0)\<close> cascades
  to the second row: it scales the row by the odd part 3 of \<open>b\<close> and eliminates \<open>x\<^sub>1\<close>,
  which leaves \<open>3 x\<^sub>2 + 2 x\<^sub>3 - x\<^sub>0\<close>. Pivoting \<open>x\<^sub>1\<close> back with \<open>x\<^sub>0\<close>, at the old value
  of \<open>x\<^sub>1\<close>, leaves \<open>3 x\<^sub>2 + 2 x\<^sub>3 + 3 x\<^sub>1\<close> with the base coefficient 3 and the cached
  value 5, and \<open>x\<^sub>2 = 0 - (5 div 3) = 15\<close>, where it was 9. After each of the two pivots
  the cached value of every row is the sum of its entries and the value of its base
  variable is the one the source assigns: the round trip is lost to the scaling of the
  row and the truncating division, not to a wrong cached value.
\<close>

theorem pivot_round_trip_rescaled:
  "row_invariant tableau_rescale 0 \<and> row_exact tableau_rescale 0
   \<and> row_invariant tableau_rescale 1 \<and> row_exact tableau_rescale 1
   \<and> value_of tableau_rescale 2 = 9
   \<and> (case pivot ext_neg tableau_rescale 0 1 3 0 of
         Inl err \<Rightarrow> False
       | Inr s1 \<Rightarrow>
          row_invariant s1 0 \<and> row_invariant s1 1
          \<and> M s1 ! 1 = [(2, 3), (3, 2), (0, 15)]
          \<and> (case pivot ext_neg s1 1 0 1 (value_of tableau_rescale 1) of
             Inl err \<Rightarrow> False
           | Inr s2 \<Rightarrow>
              row_invariant s2 0 \<and> row_invariant s2 1
              \<and> M s2 ! 1 = [(2, 3), (3, 2), (1, 3)]
              \<and> m_base_coeff (m_rows s2 ! 1) = 3 \<and> m_row_value (m_rows s2 ! 1) = 5
              \<and> value_of s2 2 = 15))"
  by code_simp

text \<open>
  C8, amended. Let the tableau satisfy the ownership invariant, with nonzero base
  coefficients, let \<open>x\<close> be basic in row \<open>r\<close> with base coefficient \<open>a\<close>, the value of \<open>x\<close>
  being the one its row determines, and let \<open>b\<close> be nonzero. If
  \<^verbatim>\<open>pivot(x, y, b, new_value)\<close> and then \<^verbatim>\<open>pivot(y, x, a, v)\<close>, \<open>v\<close> the value \<open>y\<close> had
  before, both return, then the basic assignment is as it was (the basic flag and the
  bounds of every variable, the base variable of every row), row \<open>r\<close> has its base
  coefficient and cached value back, and every variable has its value back, except
  possibly the base variables of the other rows that held \<open>y\<close> at the first pivot or
  \<open>x\<close> at the second: the rows the two pivots cascaded to. When no row other than \<open>r\<close>
  holds \<open>x\<close> or \<open>y\<close>, the matrix, the row information of every row and the value of every
  variable are restored. Every base coefficient, and with it every divisor of the two
  pivots, stays nonzero.
\<close>

theorem pivot_round_trip:
  assumes "wf_tableau s" and "basis_invariant s"
    and "x < length (m_vars s)" and "y < length (m_vars s)"
    and "value_of s x = 0 - (m_row_value (m_rows s ! m_base2row (m_vars s ! x))
                 div m_base_coeff (m_rows s ! m_base2row (m_vars s ! x)))"
    and "b \<noteq> 0"
    and "\<forall>r < length (m_rows s). m_base_coeff (m_rows s ! r) \<noteq> 0"
    and "pivot E s x y b new_value = Inr s1"
    and "pivot E s1 y x (m_base_coeff (m_rows s ! m_base2row (m_vars s ! x))) (value_of s y) = Inr s2"
  shows "(\<forall>v < length (m_vars s).
            is_base s2 v = is_base s v \<and> lo s2 v = lo s v \<and> hi s2 v = hi s v)
     \<and> (\<forall>r < length (m_rows s). m_base (m_rows s2 ! r) = m_base (m_rows s ! r))
     \<and> m_rows s2 ! m_base2row (m_vars s ! x) = m_rows s ! m_base2row (m_vars s ! x)
     \<and> (\<forall>v < length (m_vars s).
           v \<notin> set (cascaded_bases s (m_base2row (m_vars s ! x)) y)
           \<and> v \<notin> set (cascaded_bases s1 (m_base2row (m_vars s ! x)) x)
           \<longrightarrow> value_of s2 v = value_of s v)
     \<and> (cascaded_bases s (m_base2row (m_vars s ! x)) y = []
          \<and> cascaded_bases s (m_base2row (m_vars s ! x)) x = []
          \<longrightarrow> M s2 = M s \<and> m_rows s2 = m_rows s
              \<and> (\<forall>v. value_of s2 v = value_of s v \<and> is_base s2 v = is_base s v
                     \<and> lo s2 v = lo s v \<and> hi s2 v = hi s v))
     \<and> (\<forall>r < length (m_rows s).
           m_base_coeff (m_rows s1 ! r) \<noteq> 0 \<and> m_base_coeff (m_rows s2 ! r) \<noteq> 0)"
proof -
  note restored = pivot_round_trip_restores [OF assms]
  from assms(8) have "is_base s x" by (auto simp: pivot_def split: if_splits)
  with assms(2,3) have "m_base2row (m_vars s ! x) < length (m_rows s)"
    unfolding basis_invariant_def by blast
  with assms(7) have a: "m_base_coeff (m_rows s ! m_base2row (m_vars s ! x)) \<noteq> 0" by blast
  note n1 = pivot_coeff_nonzero [OF assms(6,7,8)]
  then have nz1: "\<forall>r < length (m_rows s1). m_base_coeff (m_rows s1 ! r) \<noteq> 0" by blast
  note n2 = pivot_coeff_nonzero [OF a nz1 assms(9)]
  from n1 n2 have "\<forall>r < length (m_rows s).
           m_base_coeff (m_rows s1 ! r) \<noteq> 0 \<and> m_base_coeff (m_rows s2 ! r) \<noteq> 0"
    by simp
  with restored show ?thesis by blast
qed

theorem pivot_round_trip_witness:
  "value_of (projr (pivot ext_neg (projr (pivot ext_neg tableau_rescale 0 1 3 0)) 1 0 1 1)) 0
      = value_of tableau_rescale 0
   \<and> value_of (projr (pivot ext_neg (projr (pivot ext_neg tableau_rescale 0 1 3 0)) 1 0 1 1)) 1
      = value_of tableau_rescale 1
   \<and> value_of (projr (pivot ext_neg (projr (pivot ext_neg tableau_rescale 0 1 3 0)) 1 0 1 1)) 3
      = value_of tableau_rescale 3
   \<and> is_base (projr (pivot ext_neg (projr (pivot ext_neg tableau_rescale 0 1 3 0)) 1 0 1 1)) 2
      = is_base tableau_rescale 2
   \<and> m_base (m_rows (projr (pivot ext_neg (projr (pivot ext_neg tableau_rescale 0 1 3 0)) 1 0 1 1)) ! 1)
      = m_base (m_rows tableau_rescale ! 1)
   \<and> m_rows (projr (pivot ext_neg (projr (pivot ext_neg tableau_rescale 0 1 3 0)) 1 0 1 1)) ! 0
      = m_rows tableau_rescale ! 0
   \<and> m_base_coeff (m_rows (projr (pivot ext_neg (projr (pivot ext_neg tableau_rescale 0 1 3 0)) 1 0 1 1)) ! 1) \<noteq> 0
   \<and> M (projr (pivot ext_neg (projr (pivot ext_neg tableau_near 0 1 1 2)) 1 0 1 12)) = M tableau_near
   \<and> m_rows (projr (pivot ext_neg (projr (pivot ext_neg tableau_near 0 1 1 2)) 1 0 1 12))
       = m_rows tableau_near
   \<and> (\<forall>v. value_of (projr (pivot ext_neg (projr (pivot ext_neg tableau_near 0 1 1 2)) 1 0 1 12)) v
            = value_of tableau_near v
          \<and> is_base (projr (pivot ext_neg (projr (pivot ext_neg tableau_near 0 1 1 2)) 1 0 1 12)) v
            = is_base tableau_near v
          \<and> lo (projr (pivot ext_neg (projr (pivot ext_neg tableau_near 0 1 1 2)) 1 0 1 12)) v
            = lo tableau_near v
          \<and> hi (projr (pivot ext_neg (projr (pivot ext_neg tableau_near 0 1 1 2)) 1 0 1 12)) v
            = hi tableau_near v)"
proof -
  let ?t = tableau_rescale
  let ?t1 = "projr (pivot ext_neg ?t 0 1 3 0)"
  let ?t2 = "projr (pivot ext_neg ?t1 1 0 1 1)"
  have t1: "wf_tableau ?t" by (simp add: wf_tableau_def) code_simp
  have t2: "basis_invariant ?t" by (simp add: basis_invariant_def) code_simp
  have t3: "(0 :: nat) < length (m_vars ?t)" by code_simp
  have t4: "(1 :: nat) < length (m_vars ?t)" by code_simp
  have t5: "value_of ?t 0 = 0 - (m_row_value (m_rows ?t ! m_base2row (m_vars ?t ! 0))
                 div m_base_coeff (m_rows ?t ! m_base2row (m_vars ?t ! 0)))"
    by code_simp
  have t6: "(3 :: 4 word) \<noteq> 0" by simp
  have t7: "\<forall>r < length (m_rows ?t). m_base_coeff (m_rows ?t ! r) \<noteq> 0" by code_simp
  have t8: "pivot ext_neg ?t 0 1 3 0 = Inr ?t1" by code_simp
  have t9: "pivot ext_neg ?t1 1 0 (m_base_coeff (m_rows ?t ! m_base2row (m_vars ?t ! 0)))
      (value_of ?t 1) = Inr ?t2"
    by code_simp
  note T = pivot_round_trip [OF t1 t2 t3 t4 t5 t6 t7 t8 t9]
  have l: "(0 :: nat) < length (m_vars ?t)" "(1 :: nat) < length (m_vars ?t)"
      "(2 :: nat) < length (m_vars ?t)" "(3 :: nat) < length (m_vars ?t)"
      "(0 :: nat) < length (m_rows ?t)" "(1 :: nat) < length (m_rows ?t)"
    by code_simp+
  have r0: "m_base2row (m_vars ?t ! 0) = 0" by code_simp
  have c: "0 \<notin> set (cascaded_bases ?t (m_base2row (m_vars ?t ! 0)) 1)"
      "1 \<notin> set (cascaded_bases ?t (m_base2row (m_vars ?t ! 0)) 1)"
      "3 \<notin> set (cascaded_bases ?t (m_base2row (m_vars ?t ! 0)) 1)"
      "0 \<notin> set (cascaded_bases ?t1 (m_base2row (m_vars ?t ! 0)) 0)"
      "1 \<notin> set (cascaded_bases ?t1 (m_base2row (m_vars ?t ! 0)) 0)"
      "3 \<notin> set (cascaded_bases ?t1 (m_base2row (m_vars ?t ! 0)) 0)"
    by code_simp+
  from T l c have A: "value_of ?t2 0 = value_of ?t 0" "value_of ?t2 1 = value_of ?t 1"
      "value_of ?t2 3 = value_of ?t 3" "is_base ?t2 2 = is_base ?t 2"
      "m_base (m_rows ?t2 ! 1) = m_base (m_rows ?t ! 1)"
      "m_base_coeff (m_rows ?t2 ! 1) \<noteq> 0"
    by blast+
  from T have "m_rows ?t2 ! m_base2row (m_vars ?t ! 0) = m_rows ?t ! m_base2row (m_vars ?t ! 0)"
    by blast
  then have B: "m_rows ?t2 ! 0 = m_rows ?t ! 0" by (simp only: r0)
  let ?n = tableau_near
  let ?n1 = "projr (pivot ext_neg ?n 0 1 1 2)"
  let ?n2 = "projr (pivot ext_neg ?n1 1 0 1 12)"
  have n1: "wf_tableau ?n" by (simp add: wf_tableau_def) code_simp
  have n2: "basis_invariant ?n" by (simp add: basis_invariant_def) code_simp
  have n3: "(0 :: nat) < length (m_vars ?n)" by code_simp
  have n4: "(1 :: nat) < length (m_vars ?n)" by code_simp
  have n5: "value_of ?n 0 = 0 - (m_row_value (m_rows ?n ! m_base2row (m_vars ?n ! 0))
                 div m_base_coeff (m_rows ?n ! m_base2row (m_vars ?n ! 0)))"
    by code_simp
  have n6: "(1 :: 4 word) \<noteq> 0" by simp
  have n7: "\<forall>r < length (m_rows ?n). m_base_coeff (m_rows ?n ! r) \<noteq> 0" by code_simp
  have n8: "pivot ext_neg ?n 0 1 1 2 = Inr ?n1" by code_simp
  have n9: "pivot ext_neg ?n1 1 0 (m_base_coeff (m_rows ?n ! m_base2row (m_vars ?n ! 0)))
      (value_of ?n 1) = Inr ?n2"
    by code_simp
  note N = pivot_round_trip [OF n1 n2 n3 n4 n5 n6 n7 n8 n9]
  have nc: "cascaded_bases ?n (m_base2row (m_vars ?n ! 0)) 1 = []"
      "cascaded_bases ?n (m_base2row (m_vars ?n ! 0)) 0 = []"
    by code_simp+
  from N nc have C: "M ?n2 = M ?n \<and> m_rows ?n2 = m_rows ?n
      \<and> (\<forall>v. value_of ?n2 v = value_of ?n v \<and> is_base ?n2 v = is_base ?n v
              \<and> lo ?n2 v = lo ?n v \<and> hi ?n2 v = hi ?n v)"
    by blast
  from A B C show ?thesis by blast
qed

end
